theory Spec2Isabelle
  imports Complex_Main "HOL-Library.AList"
begin

section \<open>Python exceptions as values\<close>

text \<open>
  Every exception the modelled code can raise is a constructor; a fallible function
  returns \<open>error + 'a\<close> with \<open>Inl\<close> carrying the exception.
\<close>

datatype error = ZeroDivisionError | TypeError | AttributeError | NameError | KeyError
  | IndexError | OtherError string

section \<open>adeft/recognize.py: the recognition trie\<close>

text \<open>
  \<open>_TrieNode\<close> has the slots \<open>longform\<close> (a string or \<open>None\<close>) and \<open>children\<close>
  (a dict from stemmed tokens to nodes). A Python dict keeps its keys unique and in
  insertion order, which is what \<open>AList.update\<close> does on an association list.
\<close>

datatype rtrie = R_TrieNode (rlongform: "string option") (rchildren: "(string \<times> rtrie) list")

text \<open>
  The inner loop of \<open>_init_trie\<close> for one longform: \<open>current\<close> walks down the trie
  along \<open>edges\<close>; the test \<open>index == len(edges) - 1\<close> is \<open>rest = []\<close>. A child that
  exists already is entered without being touched.
\<close>

fun insert_edges :: "string \<Rightarrow> rtrie \<Rightarrow> string list \<Rightarrow> rtrie" where
  "insert_edges lf current [] = current"
| "insert_edges lf current (token # rest) =
     (case map_of (rchildren current) token of
        None \<Rightarrow>
          (let new = (if rest = [] then R_TrieNode (Some lf) [] else R_TrieNode None [])
           in R_TrieNode (rlongform current)
                (AList.update token (insert_edges lf new rest) (rchildren current)))
      | Some child \<Rightarrow>
          R_TrieNode (rlongform current)
            (AList.update token (insert_edges lf child rest) (rchildren current)))"

text \<open>
  \<open>_init_trie\<close>: the grounding map is given as the sequence of its items, in the
  dict's order. The tokenizer \<open>adeft.nlp.tokenize\<close> (only the token texts matter here)
  and the Snowball stemmer are parameters \<open>tok\<close> and \<open>stem\<close>.
\<close>

definition edges_of :: "(string \<Rightarrow> string list) \<Rightarrow> (string \<Rightarrow> string) \<Rightarrow> string \<Rightarrow> string list" where
  "edges_of tok stem lf = rev (map stem (tok lf))"

fun init_loop :: "(string \<Rightarrow> string list) \<Rightarrow> (string \<Rightarrow> string) \<Rightarrow> rtrie
    \<Rightarrow> (string \<times> string) list \<Rightarrow> rtrie" where
  "init_loop tok stem trie [] = trie"
| "init_loop tok stem trie ((lf, grounding) # items) =
     init_loop tok stem (insert_edges lf trie (edges_of tok stem lf)) items"

definition init_trie :: "(string \<Rightarrow> string list) \<Rightarrow> (string \<Rightarrow> string)
    \<Rightarrow> (string \<times> string) list \<Rightarrow> rtrie" where
  "init_trie tok stem grounding_map = init_loop tok stem (R_TrieNode None []) grounding_map"

text \<open>
  \<open>AdeftRecognizer._search\<close>: the loop over the stemmed, reversed tokens. Leaving the
  loop by \<open>break\<close> or by running out of tokens falls off the end of the function,
  which returns \<open>None\<close>.
\<close>

fun search_loop :: "rtrie \<Rightarrow> string list \<Rightarrow> string option" where
  "search_loop current [] = None"
| "search_loop current (token # rest) =
     (case map_of (rchildren current) token of
        None \<Rightarrow> None
      | Some child \<Rightarrow>
          (case rlongform child of
             None \<Rightarrow> search_loop child rest
           | Some lf \<Rightarrow> Some lf))"

definition search :: "(string \<Rightarrow> string) \<Rightarrow> rtrie \<Rightarrow> string list \<Rightarrow> string option" where
  "search stem trie tokens = search_loop trie (map stem (rev tokens))"

text \<open>The node a path of edges leads to, if every edge of the path exists.\<close>

fun descend :: "rtrie \<Rightarrow> string list \<Rightarrow> rtrie option" where
  "descend n [] = Some n"
| "descend n (k # ks) =
     (case map_of (rchildren n) k of None \<Rightarrow> None | Some c \<Rightarrow> descend c ks)"

text \<open>
  \<open>BaseRecognizer.__init__\<close>: the attributes every recognizer has. \<open>exclude=None\<close>
  becomes the empty set.
\<close>

record base_recognizer =
  shortform :: string
  window :: int
  exclude :: "string set"

definition BaseRecognizer_init :: "string \<Rightarrow> int \<Rightarrow> string set option \<Rightarrow> base_recognizer" where
  "BaseRecognizer_init sf w ex =
     \<lparr>shortform = sf, window = w, exclude = (case ex of None \<Rightarrow> {} | Some e \<Rightarrow> e)\<rparr>"

text \<open>
  \<open>BaseRecognizer.recognize\<close>, with the subclass's \<open>_search\<close> and \<open>_post_process\<close>
  as the arguments \<open>srch\<close> and \<open>post\<close>. The helpers \<open>get_candidate_fragments\<close> and
  \<open>get_candidate\<close> of \<open>adeft.util\<close> are the parameters \<open>frags\<close> and \<open>cand\<close>; the
  third argument of \<open>frags\<close> is the keyword argument \<open>window\<close>, \<open>None\<close> when the call
  leaves it to its default.
  \<open>if not fragment\<close> skips the empty fragment; \<open>if longform:\<close> is false for \<open>None\<close>
  and for the empty string.
\<close>

fun recognize_loop :: "(string list \<Rightarrow> error + string option) \<Rightarrow> (string \<Rightarrow> error + string)
    \<Rightarrow> (string \<Rightarrow> string set \<Rightarrow> string list) \<Rightarrow> string set \<Rightarrow> string set \<Rightarrow> string list
    \<Rightarrow> error + string set" where
  "recognize_loop srch post cand ex expansions [] = Inr expansions"
| "recognize_loop srch post cand ex expansions (fragment # fragments) =
     (if fragment = [] then recognize_loop srch post cand ex expansions fragments
      else
        (case srch (cand fragment ex) of
           Inl e \<Rightarrow> Inl e
         | Inr None \<Rightarrow> recognize_loop srch post cand ex expansions fragments
         | Inr (Some lf) \<Rightarrow>
             (if lf = [] then recognize_loop srch post cand ex expansions fragments
              else
                (case post lf of
                   Inl e \<Rightarrow> Inl e
                 | Inr expansion \<Rightarrow>
                     recognize_loop srch post cand ex (insert expansion expansions) fragments))))"

definition base_recognize :: "(string list \<Rightarrow> error + string option) \<Rightarrow> (string \<Rightarrow> error + string)
    \<Rightarrow> (string \<Rightarrow> string \<Rightarrow> int option \<Rightarrow> string list)
    \<Rightarrow> (string \<Rightarrow> string set \<Rightarrow> string list)
    \<Rightarrow> 'a base_recognizer_scheme \<Rightarrow> string \<Rightarrow> error + string set" where
  "base_recognize srch post frags cand r text =
     recognize_loop srch post cand (exclude r) {}
       (frags text (shortform r) (Some (window r)))"

text \<open>
  \<open>AdeftRecognizer\<close>: the base attributes, the grounding map and the trie built from
  it. \<open>_post_process\<close> indexes the grounding map; a missing key raises \<open>KeyError\<close>.
\<close>

record adeft_recognizer = base_recognizer +
  grounding_map :: "(string \<times> string) list"
  trie :: rtrie

definition AdeftRecognizer_init :: "(string \<Rightarrow> string list) \<Rightarrow> (string \<Rightarrow> string) \<Rightarrow> string
    \<Rightarrow> (string \<times> string) list \<Rightarrow> int \<Rightarrow> string set option \<Rightarrow> adeft_recognizer" where
  "AdeftRecognizer_init tok stem sf gm w ex =
     base_recognizer.extend (BaseRecognizer_init sf w ex)
       (adeft_recognizer.fields gm (init_trie tok stem gm))"

definition post_process :: "adeft_recognizer \<Rightarrow> string \<Rightarrow> error + string" where
  "post_process r lf =
     (case map_of (grounding_map r) lf of None \<Rightarrow> Inl KeyError | Some g \<Rightarrow> Inr g)"

definition recognize :: "(string \<Rightarrow> string \<Rightarrow> int option \<Rightarrow> string list)
    \<Rightarrow> (string \<Rightarrow> string set \<Rightarrow> string list)
    \<Rightarrow> (string \<Rightarrow> string) \<Rightarrow> adeft_recognizer \<Rightarrow> string \<Rightarrow> error + string set" where
  "recognize frags cand stem r text =
     base_recognize (\<lambda>tokens. Inr (search stem (trie r) tokens)) (post_process r) frags cand r text"

text \<open>
  \<open>OneShotRecognizer\<close>. The name \<open>AdeftLongformScorer\<close> is bound only when the import
  at the top of the module succeeded: \<open>ctor = None\<close> is the unbound name, whose use
  raises \<open>NameError\<close>; otherwise the constructor is called and may itself raise.
  \<open>__init__\<close> catches \<open>NameError\<close> and nothing else, writes a log record and goes on
  to the base constructor; the attribute \<open>scorer\<close> is then never set. The second
  component of the result is what was logged.
\<close>

record 's oneshot_recognizer = base_recognizer +
  scorer :: "'s option"

definition OneShotRecognizer_init :: "(string \<Rightarrow> error + 's) option \<Rightarrow> string \<Rightarrow> int
    \<Rightarrow> string set option \<Rightarrow> error + ('s oneshot_recognizer \<times> string list)" where
  "OneShotRecognizer_init ctor sf w ex =
     (case (case ctor of None \<Rightarrow> Inl NameError | Some mk \<Rightarrow> mk sf) of
        Inl err \<Rightarrow>
          (if err = NameError
           then Inr (base_recognizer.extend (BaseRecognizer_init sf w ex)
                       (oneshot_recognizer.fields None),
                     [''OneShotRecognizer not available. AdeftLongformScorer has not been built successfully.''])
           else Inl err)
      | Inr s \<Rightarrow>
          Inr (base_recognizer.extend (BaseRecognizer_init sf w ex)
                 (oneshot_recognizer.fields (Some s)), []))"

text \<open>
  \<open>OneShotRecognizer._search\<close>: reading \<open>self.scorer\<close> raises \<open>AttributeError\<close> when
  the attribute was never set; \<open>score\<close> is the external scorer's method, and
  \<open>result[0]\<close> is its first component.
\<close>

definition oneshot_search :: "('s \<Rightarrow> string list \<Rightarrow> error + (string option \<times> 'b))
    \<Rightarrow> 's oneshot_recognizer \<Rightarrow> string list \<Rightarrow> error + string option" where
  "oneshot_search score r tokens =
     (case scorer r of
        None \<Rightarrow> Inl AttributeError
      | Some s \<Rightarrow> (case score s tokens of Inl e \<Rightarrow> Inl e | Inr result \<Rightarrow> Inr (fst result)))"

section \<open>deft/mine.py: the mining trie\<close>

text \<open>
  The likelihood \<open>LH\<close> and the cached length penalty are Python floats. The operations
  that the code applies to them are the parameter \<open>ops\<close>: \<open>flog n\<close> is
  \<open>math.log(n)\<close> of a length, \<open>fadd\<close> and \<open>fsub\<close> are \<open>+\<close> and \<open>-\<close> on floats, and
  \<open>fdiv a b\<close> is the quotient \<open>a / b\<close> of two integers with \<open>b\<close> not zero, a float.
  Nothing is assumed of them, so what is proved for every \<open>ops\<close> holds for IEEE
  doubles. The error that Python raises for a quotient too large for a float is not
  modelled.
\<close>

record 'f float_ops =
  flog :: "nat \<Rightarrow> 'f"
  fadd :: "'f \<Rightarrow> 'f \<Rightarrow> 'f"
  fsub :: "'f \<Rightarrow> 'f \<Rightarrow> 'f"
  fdiv :: "int \<Rightarrow> int \<Rightarrow> 'f"

text \<open>Exact arithmetic: the floats are the real numbers and nothing is rounded.\<close>

definition exact_ops :: "real float_ops" where
  "exact_ops =
     \<lparr>flog = (\<lambda>n. ln (real n)), fadd = (\<lambda>a b. a + b), fsub = (\<lambda>a b. a - b),
      fdiv = (\<lambda>a b. real_of_int a / real_of_int b)\<rparr>"

text \<open>
  IEEE binary64 with rounding to nearest, ties to even, for results in the normal
  range: a double is the rational number it stands for, and every operation returns
  the double nearest to the exact result. \<open>bitlen n\<close> is the number of binary digits
  of \<open>n\<close>, \<open>ilog2 x\<close> the exponent \<open>e\<close> with \<open>2^e \<le> x < 2^(e+1)\<close> for a positive \<open>x\<close>,
  and \<open>double_round x\<close> keeps 53 significant binary digits of \<open>x\<close>. The values of
  \<open>math.log\<close> are given by a table \<open>lg\<close>.
\<close>

fun bitlen :: "nat \<Rightarrow> nat" where
  "bitlen n = (if n = 0 then 0 else Suc (bitlen (n div 2)))"

definition ilog2 :: "rat \<Rightarrow> int" where
  "ilog2 x =
     (if 1 \<le> x then int (bitlen (nat \<lfloor>x\<rfloor>)) - 1
      else - int (bitlen (nat (\<lceil>1 / x\<rceil> - 1))))"

definition round_half_even :: "rat \<Rightarrow> int" where
  "round_half_even x =
     (let f = \<lfloor>x\<rfloor>; d = x - of_int f
      in if d < 1 / 2 then f else if 1 / 2 < d then f + 1 else if even f then f else f + 1)"

definition double_round :: "rat \<Rightarrow> rat" where
  "double_round x =
     (if x = 0 then 0
      else (let u = 2 powi (ilog2 \<bar>x\<bar> - 52) in of_int (round_half_even (x / u)) * u))"

definition double_ops :: "(nat \<Rightarrow> rat) \<Rightarrow> rat float_ops" where
  "double_ops lg =
     \<lparr>flog = lg,
      fadd = (\<lambda>a b. double_round (a + b)),
      fsub = (\<lambda>a b. double_round (a - b)),
      fdiv = (\<lambda>a b. double_round (of_int a / of_int b))\<rparr>"

text \<open>
  \<open>math.log\<close> on the lengths 1, 2 and 3 as CPython returns it: \<open>0.0\<close>,
  \<open>0x1.62e42fefa39efp-1\<close> and \<open>0x1.193ea7aad030bp+0\<close>, the doubles nearest to the
  logarithms. Longer longforms do not occur where the table is used.
\<close>

definition log_table :: "nat \<Rightarrow> rat" where
  "log_table n =
     (if n = 2 then 6243314768165359 / 2 ^ 53
      else if n = 3 then 4947709893870347 / 2 ^ 52
      else 0)"

text \<open>
  The attributes \<open>count\<close>, \<open>sum_ft\<close>, \<open>sum_ft2\<close>, \<open>LH\<close> and \<open>__length_penalty\<close> of
  \<open>ContinuousMiner.TrieNode\<close>. The counts are Python integers.
\<close>

record 'f stats =
  count :: int
  sum_ft :: int
  sum_ft2 :: int
  LH :: 'f
  length_penalty :: 'f

text \<open>
  A node has a \<open>longform\<close> (the tuple of tokens in reverse order) and \<open>children\<close>
  always; \<open>__init__\<close> sets the other attributes only \<open>if longform\<close>, so the root,
  made by \<open>TrieNode()\<close>, has none of them: \<open>stats = None\<close>.
\<close>

datatype 'f mtrie = TrieNode (longform: "string list") (stats: "'f stats option")
  (children: "(string \<times> 'f mtrie) list")

definition new_TrieNode :: "'f float_ops \<Rightarrow> string list \<Rightarrow> 'f mtrie" where
  "new_TrieNode ops lf =
     TrieNode lf
       (if lf \<noteq> []
        then Some \<lparr>count = 1, sum_ft = 0, sum_ft2 = 0,
                   LH = flog ops (length lf), length_penalty = flog ops (length lf)\<rparr>
        else None)
       []"

definition increment_count :: "'f float_ops \<Rightarrow> 'f stats \<Rightarrow> 'f stats" where
  "increment_count ops s =
     s\<lparr>count := count s + 1, LH := fadd ops (LH s) (length_penalty s)\<rparr>"

text \<open>
  \<open>update_likelihood\<close>: the first statement adds \<open>sum_ft/sum_ft2\<close> when \<open>sum_ft2\<close> is
  non-zero and the integer \<open>0\<close> otherwise, which leaves a float as it is; the last
  statement divides without a test and raises \<open>ZeroDivisionError\<close> when the new
  \<open>sum_ft2\<close> is zero.
\<close>

definition update_likelihood :: "'f float_ops \<Rightarrow> 'f stats \<Rightarrow> int \<Rightarrow> error + 'f stats" where
  "update_likelihood ops s c =
     (let lh1 = (if sum_ft2 s \<noteq> 0 then fadd ops (LH s) (fdiv ops (sum_ft s) (sum_ft2 s))
                 else LH s);
          ft = sum_ft s + 1;
          ft2 = sum_ft2 s + (2 * c - 1)
      in if ft2 = 0 then Inl ZeroDivisionError
         else Inr (s\<lparr>sum_ft := ft, sum_ft2 := ft2, LH := fsub ops lh1 (fdiv ops ft ft2)\<rparr>))"

text \<open>
  The miner: the shortform, the root of the trie, the table \<open>_longforms\<close> from
  longforms (forward order) to likelihoods, and the excluded tokens. The counter
  inside the stemmer \<open>_snow\<close> is read by \<open>top\<close> only and is left out; the stemming
  itself is the parameter \<open>stem\<close>.
\<close>

record 'f miner =
  m_shortform :: string
  internal_trie :: "'f mtrie"
  longforms :: "string list \<rightharpoonup> 'f"
  m_exclude :: "string set"

definition ContinuousMiner_init :: "'f float_ops \<Rightarrow> string \<Rightarrow> string set option \<Rightarrow> 'f miner" where
  "ContinuousMiner_init ops sf ex =
     \<lparr>m_shortform = sf, internal_trie = new_TrieNode ops [], longforms = Map.empty,
      m_exclude = (case ex of None \<Rightarrow> {} | Some e \<Rightarrow> e)\<rparr>"

definition set_child :: "'f mtrie \<Rightarrow> string \<Rightarrow> 'f mtrie \<Rightarrow> 'f mtrie" where
  "set_child n token c = TrieNode (longform n) (stats n) (AList.update token c (children n))"

text \<open>
  The loop of \<open>_add\<close>. \<open>current\<close> is the node the loop stands on and \<open>lfs\<close> the
  table; the result is \<open>current\<close> with everything the rest of the loop did below
  it. Reading an attribute of a node that has no statistics raises
  \<open>AttributeError\<close>.
\<close>

fun add_loop :: "'f float_ops \<Rightarrow> 'f mtrie \<Rightarrow> (string list \<rightharpoonup> 'f) \<Rightarrow> string list
    \<Rightarrow> error + ('f mtrie \<times> (string list \<rightharpoonup> 'f))" where
  "add_loop ops current lfs [] = Inr (current, lfs)"
| "add_loop ops current lfs (token # tokens) =
     (case map_of (children current) token of
        None \<Rightarrow>
          (let new = new_TrieNode ops (longform current @ [token])
           in case stats new of
                None \<Rightarrow> Inl AttributeError
              | Some ns \<Rightarrow>
                  (case add_loop ops new (lfs(rev (longform new) \<mapsto> LH ns)) tokens of
                     Inl e \<Rightarrow> Inl e
                   | Inr (new', lfs') \<Rightarrow> Inr (set_child current token new', lfs')))
      | Some child \<Rightarrow>
          (case stats child of
             None \<Rightarrow> Inl AttributeError
           | Some cs \<Rightarrow>
               (let cs' = increment_count ops cs;
                    child' = TrieNode (longform child) (Some cs') (children child);
                    lfs1 = lfs(rev (longform child') \<mapsto> LH cs')
                in case (if longform current \<noteq> []
                         then (case stats current of
                                 None \<Rightarrow> Inl AttributeError
                               | Some ps \<Rightarrow>
                                   (case update_likelihood ops ps (count cs') of
                                      Inl e \<Rightarrow> Inl e
                                    | Inr ps' \<Rightarrow>
                                        Inr (TrieNode (longform current) (Some ps') (children current),
                                             lfs1(rev (longform current) \<mapsto> LH ps'))))
                         else Inr (current, lfs1)) of
                     Inl e \<Rightarrow> Inl e
                   | Inr (current', lfs2) \<Rightarrow>
                       (case add_loop ops child' lfs2 tokens of
                          Inl e \<Rightarrow> Inl e
                        | Inr (child'', lfs') \<Rightarrow> Inr (set_child current' token child'', lfs')))))"

text \<open>
  \<open>_add\<close>. Its argument is whatever \<open>_get_candidates\<close> returned: a list of tokens, or
  \<open>None\<close>, over which the list comprehension cannot iterate (\<open>TypeError\<close>).
\<close>

definition miner_add :: "'f float_ops \<Rightarrow> (string \<Rightarrow> string) \<Rightarrow> 'f miner \<Rightarrow> string list option
    \<Rightarrow> error + 'f miner" where
  "miner_add ops stem m tokens =
     (case tokens of
        None \<Rightarrow> Inl TypeError
      | Some ts \<Rightarrow>
          (case add_loop ops (internal_trie m) (longforms m) (rev (map stem ts)) of
             Inl e \<Rightarrow> Inl e
           | Inr (t, lfs) \<Rightarrow> Inr (m\<lparr>internal_trie := t, longforms := lfs\<rparr>)))"

text \<open>A sequence of \<open>_add\<close> calls, stopping at the first exception.\<close>

fun add_all :: "'f float_ops \<Rightarrow> (string \<Rightarrow> string) \<Rightarrow> 'f miner \<Rightarrow> string list option list
    \<Rightarrow> error + 'f miner" where
  "add_all ops stem m [] = Inr m"
| "add_all ops stem m (c # cs) =
     (case miner_add ops stem m c of Inl e \<Rightarrow> Inl e | Inr m' \<Rightarrow> add_all ops stem m' cs)"

text \<open>The node of the mining trie that a path of stemmed tokens leads to.\<close>

fun node_at :: "'f mtrie \<Rightarrow> string list \<Rightarrow> 'f mtrie option" where
  "node_at n [] = Some n"
| "node_at n (k # ks) =
     (case map_of (children n) k of None \<Rightarrow> None | Some c \<Rightarrow> node_at c ks)"

text \<open>
  The relation between a node's likelihood and its other attributes, as the
  docstring of \<open>TrieNode\<close> gives it, with the guard of \<open>update_likelihood\<close> on
  \<open>sum_ft2\<close>, read in exact arithmetic.
\<close>

definition lh_relation :: "string list \<Rightarrow> real stats \<Rightarrow> bool" where
  "lh_relation lf s \<longleftrightarrow>
     LH s = real_of_int (count s) * ln (real (length lf))
            - (if sum_ft2 s \<noteq> 0 then real_of_int (sum_ft s) / real_of_int (sum_ft2 s) else 0)"

definition exact_rel :: "string list \<Rightarrow> real stats \<Rightarrow> bool" where
  "exact_rel lf s \<longleftrightarrow> lh_relation lf s \<and> length_penalty s = ln (real (length lf))"

text \<open>
  What every node below the root satisfies: it has its statistics, the counters are
  in range, and a relation \<open>R\<close> between its longform and its statistics holds.
\<close>

definition good :: "(string list \<Rightarrow> 'f stats \<Rightarrow> bool) \<Rightarrow> string list \<Rightarrow> 'f stats option \<Rightarrow> bool" where
  "good R lf st \<longleftrightarrow>
     (case st of
        None \<Rightarrow> False
      | Some s \<Rightarrow> 1 \<le> count s \<and> 0 \<le> sum_ft2 s \<and> R lf s)"

fun wf_sub :: "(string list \<Rightarrow> 'f stats \<Rightarrow> bool) \<Rightarrow> 'f mtrie \<Rightarrow> bool" where
  "wf_sub R (TrieNode lf st cs) = (good R lf st \<and> (\<forall>c \<in> snd ` set cs. wf_sub R c))"

definition wf_current :: "(string list \<Rightarrow> 'f stats \<Rightarrow> bool) \<Rightarrow> 'f mtrie \<Rightarrow> bool" where
  "wf_current R n \<longleftrightarrow>
     (good R (longform n) (stats n) \<or> (longform n = [] \<and> stats n = None))
     \<and> (\<forall>c \<in> snd ` set (children n). wf_sub R c)"

text \<open>
  The trie that insertions of one and the same token sequence build: a single path.
  \<open>path_stats ops d leaf j\<close> is what the node at depth \<open>d\<close> of the path holds after
  \<open>j + 1\<close> insertions: each insertion after the first increments the count, and
  updates the likelihood with the count of the child unless the node is the last one
  of the path (\<open>leaf\<close>). \<open>chain ops j pre rest\<close> is the children dict of the node
  with longform \<open>pre\<close> when the tokens \<open>rest\<close> are still to come.
\<close>

fun path_stats :: "'f float_ops \<Rightarrow> nat \<Rightarrow> bool \<Rightarrow> nat \<Rightarrow> 'f stats" where
  "path_stats ops d leaf 0 =
     \<lparr>count = 1, sum_ft = 0, sum_ft2 = 0, LH = flog ops d, length_penalty = flog ops d\<rparr>"
| "path_stats ops d leaf (Suc j) =
     (let s = increment_count ops (path_stats ops d leaf j)
      in if leaf then s
         else (case update_likelihood ops s (int j + 2) of Inl e \<Rightarrow> s | Inr s' \<Rightarrow> s'))"

fun chain :: "'f float_ops \<Rightarrow> nat \<Rightarrow> string list \<Rightarrow> string list \<Rightarrow> (string \<times> 'f mtrie) list" where
  "chain ops j pre [] = []"
| "chain ops j pre (t # rest) =
     [(t, TrieNode (pre @ [t]) (Some (path_stats ops (Suc (length pre)) (rest = []) j))
            (chain ops j (pre @ [t]) rest))]"

text \<open>The shape of a trie: its nodes and edges, with the statistics erased.\<close>

primrec shape :: "'f mtrie \<Rightarrow> 'f mtrie" where
  "shape (TrieNode lf st cs) = TrieNode lf None (map (map_prod id shape) cs)"

definition count_at :: "'f mtrie \<Rightarrow> string list \<Rightarrow> int option" where
  "count_at t path =
     (case node_at t path of None \<Rightarrow> None | Some n \<Rightarrow> map_option count (stats n))"

definition stats_at :: "'f mtrie \<Rightarrow> string list \<Rightarrow> (int \<times> int \<times> int \<times> 'f) option" where
  "stats_at t path =
     (case node_at t path of
        None \<Rightarrow> None
      | Some n \<Rightarrow> map_option (\<lambda>s. (count s, sum_ft s, sum_ft2 s, LH s)) (stats n))"

section \<open>Strings\<close>

text \<open>
  Python's \<open>needle in hay\<close> on strings is the substring test. \<open>string.punctuation\<close>
  is the 32 ASCII punctuation characters in code order.
\<close>

fun starts_with :: "string \<Rightarrow> string \<Rightarrow> bool" where
  "starts_with s [] = True"
| "starts_with [] (c # cs) = False"
| "starts_with (x # xs) (c # cs) = (x = c \<and> starts_with xs cs)"

fun str_in :: "string \<Rightarrow> string \<Rightarrow> bool" where
  "str_in needle [] = (needle = [])"
| "str_in needle (h # hs) = (starts_with (h # hs) needle \<or> str_in needle hs)"

definition punctuation :: string where
  "punctuation =
     [CHR 0x21, CHR 0x22, CHR 0x23, CHR 0x24, CHR 0x25, CHR 0x26, CHR 0x27, CHR 0x28,
      CHR 0x29, CHR 0x2A, CHR 0x2B, CHR 0x2C, CHR 0x2D, CHR 0x2E, CHR 0x2F, CHR 0x3A,
      CHR 0x3B, CHR 0x3C, CHR 0x3D, CHR 0x3E, CHR 0x3F, CHR 0x40, CHR 0x5B, CHR 0x5C,
      CHR 0x5D, CHR 0x5E, CHR 0x5F, CHR 0x60, CHR 0x7B, CHR 0x7C, CHR 0x7D, CHR 0x7E]"

text \<open>
  \<open>str.lower\<close> on ASCII text: the letters \<open>A\<close> to \<open>Z\<close> are mapped and every other
  character is left as it is, also an upper-case letter beyond ASCII, which
  \<open>str.lower\<close> would change.
\<close>

definition lower_char :: "char \<Rightarrow> char" where
  "lower_char c =
     (case map_of (zip ''ABCDEFGHIJKLMNOPQRSTUVWXYZ'' ''abcdefghijklmnopqrstuvwxyz'') c of
        None \<Rightarrow> c
      | Some l \<Rightarrow> l)"

definition lower :: "string \<Rightarrow> string" where
  "lower s = map lower_char s"

section \<open>deft/mine.py: candidate extraction\<close>

text \<open>
  The test of the \<open>for\<close> loop of \<open>_get_candidates\<close> at one index. The loop runs over
  \<open>range(len(tokens) - 3)\<close>, which is empty when the list has fewer than four tokens,
  and returns from the function at the first index that passes the test.
\<close>

definition pattern_at :: "string \<Rightarrow> string list \<Rightarrow> nat \<Rightarrow> bool" where
  "pattern_at sf tokens index \<longleftrightarrow>
     tokens ! index = ''('' \<and> tokens ! (index + 1) = sf \<and> tokens ! (index + 2) = '')''"

text \<open>
  The \<open>while\<close> loop that walks back from the end of the candidate while the tokens
  are not excluded. The counter here is \<open>i + 1\<close>, so that it stays a natural number
  when \<open>i\<close> reaches \<open>-1\<close>; the result is the start of the slice \<open>candidate[i+1:]\<close>.
  The \<open>print\<close> in the loop body writes to standard output and changes nothing else.
\<close>

fun scan_back :: "string set \<Rightarrow> string list \<Rightarrow> nat \<Rightarrow> nat" where
  "scan_back ex candidate 0 = 0"
| "scan_back ex candidate (Suc i) =
     (if candidate ! i \<notin> ex then scan_back ex candidate i else Suc i)"

text \<open>
  \<open>_get_candidates\<close>. The table \<open>resources.greek_alphabet\<close> is the parameter \<open>greek\<close>.
  When the loop ends without having found the pattern the function falls off its end
  and returns \<open>None\<close>.
\<close>

definition get_candidates :: "(string \<rightharpoonup> string) \<Rightarrow> 'f miner \<Rightarrow> string list
    \<Rightarrow> string list option" where
  "get_candidates greek m tokens =
     (case find (pattern_at (m_shortform m) tokens) [0 ..< length tokens - 3] of
        None \<Rightarrow> None
      | Some index \<Rightarrow>
          (let candidate = filter (\<lambda>token. \<not> str_in token punctuation) (take index tokens);
               candidate = map (\<lambda>token. case greek token of None \<Rightarrow> token | Some r \<Rightarrow> r) candidate;
               candidate = map lower candidate;
               i = scan_back (m_exclude m) candidate (length candidate)
           in Some (drop i candidate)))"

text \<open>
  \<open>consume\<close>: the sentences that contain the shortform in parentheses are tokenized,
  a candidate is extracted from each, and each candidate is passed to \<open>_add\<close>. The
  sentence and word tokenizers of \<open>nltk\<close> are parameters.
\<close>

definition consume :: "'f float_ops \<Rightarrow> (string \<Rightarrow> string list) \<Rightarrow> (string \<Rightarrow> string list)
    \<Rightarrow> (string \<rightharpoonup> string) \<Rightarrow> (string \<Rightarrow> string) \<Rightarrow> 'f miner \<Rightarrow> string list
    \<Rightarrow> error + 'f miner" where
  "consume ops sent_tokenize word_tokenize greek stem m texts =
     (let split = map sent_tokenize texts;
          sentences = filter (\<lambda>sentence. str_in (''('' @ m_shortform m @ '')'') sentence) (concat split);
          tokens = map word_tokenize sentences;
          candidates = map (get_candidates greek m) tokens
      in add_all ops stem m candidates)"

section \<open>adeft/recognize.py: stripping defining patterns\<close>

text \<open>
  Text is a string over the first 256 code points. \<open>is_space\<close> is the whitespace of
  \<open>str.split()\<close>, \<open>str.strip()\<close> and of \<open>\s\<close> in a pattern over \<open>str\<close>, in that range:
  tab, line feed, vertical tab, form feed, carriage return, the four separators
  \<open>0x1C\<close> to \<open>0x1F\<close>, space, \<open>0x85\<close> and \<open>0xA0\<close>.
\<close>

definition is_space :: "char \<Rightarrow> bool" where
  "is_space c \<longleftrightarrow>
     c \<in> set [CHR 0x09, CHR 0x0A, CHR 0x0B, CHR 0x0C, CHR 0x0D, CHR 0x1C, CHR 0x1D,
               CHR 0x1E, CHR 0x1F, CHR 0x20, CHR 0x85, CHR 0xA0]"

text \<open>\<open>s.split()\<close>: the maximal runs of non-whitespace; \<open>cur\<close> is the run being read.\<close>

fun split_acc :: "string \<Rightarrow> string \<Rightarrow> string list" where
  "split_acc cur [] = (if cur = [] then [] else [cur])"
| "split_acc cur (c # cs) =
     (if is_space c then (if cur = [] then split_acc [] cs else cur # split_acc [] cs)
      else split_acc (cur @ [c]) cs)"

definition split_ws :: "string \<Rightarrow> string list" where
  "split_ws s = split_acc [] s"

text \<open>\<open>' '.join(words)\<close>.\<close>

fun join_sp :: "string list \<Rightarrow> string" where
  "join_sp [] = []"
| "join_sp [w] = w"
| "join_sp (w # v # ws) = w @ '' '' @ join_sp (v # ws)"

text \<open>\<open>s.strip()\<close>.\<close>

definition strip :: "string \<Rightarrow> string" where
  "strip s = rev (dropWhile is_space (rev (dropWhile is_space s)))"

text \<open>
  \<open>text.replace(old, new)\<close>: every occurrence of \<open>old\<close>, from the left, without
  overlaps. With an empty \<open>old\<close> Python puts \<open>new\<close> before every character and at the
  end. The counter \<open>skip\<close> is the number of characters of a replaced occurrence that
  are still to be passed over.
\<close>

fun replace_go :: "string \<Rightarrow> string \<Rightarrow> nat \<Rightarrow> string \<Rightarrow> string" where
  "replace_go old new skip [] = []"
| "replace_go old new skip (c # cs) =
     (if 0 < skip then replace_go old new (skip - 1) cs
      else if starts_with (c # cs) old then new @ replace_go old new (length old - 1) cs
      else c # replace_go old new 0 cs)"

definition replace :: "string \<Rightarrow> string \<Rightarrow> string \<Rightarrow> string" where
  "replace s old new =
     (if old = [] then concat (map (\<lambda>c. new @ [c]) s) @ new else replace_go old new 0 s)"

text \<open>
  The pattern \<open>\(\s*%s\s*\)\<close> with the shortform put in as it is. For a shortform
  of letters and digits only (\<open>plain_shortform\<close>) the interpolated text stands for
  itself in the pattern and in the replacement template, and a match at the head of
  \<open>s\<close> is an opening parenthesis, the longest run of whitespace, the shortform,
  the longest run of whitespace and a closing parenthesis; \<open>match_dp\<close> returns what
  follows the match. A shortform with other characters, which the pattern would
  interpret (as in \<open>Ca2+\<close>), is outside this model.
\<close>

definition plain_shortform :: "string \<Rightarrow> bool" where
  "plain_shortform sf \<longleftrightarrow>
     sf \<noteq> [] \<and>
     (\<forall>c \<in> set sf. c \<in> set ''ABCDEFGHIJKLMNOPQRSTUVWXYZabcdefghijklmnopqrstuvwxyz0123456789'')"

definition match_dp :: "string \<Rightarrow> string \<Rightarrow> string option" where
  "match_dp sf s =
     (case s of
        [] \<Rightarrow> None
      | c # r \<Rightarrow>
          if c \<noteq> CHR ''(''  then None
          else
            (let r1 = dropWhile is_space r
             in if \<not> starts_with r1 sf then None
                else
                  (case dropWhile is_space (drop (length sf) r1) of
                     [] \<Rightarrow> None
                   | d # r3 \<Rightarrow> if d = CHR '')'' then Some r3 else None)))"

text \<open>
  \<open>re.sub(pattern, repl, s)\<close> for that pattern: the matches are taken from the left,
  each one as early as possible, and do not overlap. \<open>skip\<close> counts the characters
  of the current match that are still to be passed over.
\<close>

fun sub_go :: "string \<Rightarrow> string \<Rightarrow> nat \<Rightarrow> string \<Rightarrow> string" where
  "sub_go sf repl skip [] = []"
| "sub_go sf repl skip (c # cs) =
     (if 0 < skip then sub_go sf repl (skip - 1) cs
      else
        (case match_dp sf (c # cs) of
           None \<Rightarrow> c # sub_go sf repl 0 cs
         | Some rest \<Rightarrow> repl @ sub_go sf repl (length cs - length rest) cs))"

definition re_sub :: "string \<Rightarrow> string \<Rightarrow> string \<Rightarrow> string" where
  "re_sub sf repl s = sub_go sf repl 0 s"

text \<open>
  Python indexing and slicing of a list: a negative index counts from the end, an
  index out of range raises \<open>IndexError\<close>; \<open>xs[:n]\<close> never raises.
\<close>

definition py_index :: "'a list \<Rightarrow> int \<Rightarrow> error + 'a" where
  "py_index xs j =
     (let n = int (length xs); k = (if j < 0 then n + j else j)
      in if 0 \<le> k \<and> k < n then Inr (xs ! nat k) else Inl IndexError)"

definition slice_to :: "'a list \<Rightarrow> int \<Rightarrow> 'a list" where
  "slice_to xs n = (if 0 \<le> n then take (nat n) xs else take (length xs - nat (- n)) xs)"

text \<open>
  The \<open>while\<close> loop of \<open>strip_defining_patterns\<close> that walks back over the tokens of a
  fragment until it has counted as many words as the longform has. \<open>word_start\<close> is
  \<open>re.match(r'\w+', token)\<close>, a parameter. The result is the final value of \<open>j\<close>.
  The index \<open>j\<close> goes down by one in every round, and reading \<open>tokens[j]\<close> raises once it
  is below \<open>-len(tokens)\<close>.
\<close>

function count_back :: "(string \<Rightarrow> bool) \<Rightarrow> (string \<times> nat \<times> nat) list \<Rightarrow> nat \<Rightarrow> nat \<Rightarrow> int
    \<Rightarrow> error + int" where
  "count_back word_start tokens num_words i j =
     (if i < num_words then
        (case py_index tokens j of
           Inl e \<Rightarrow> Inl e
         | Inr tk \<Rightarrow>
             (let i' = (if word_start (fst tk) then i + 1 else i)
              in if 100 < i' then Inr (j - 1)
                 else count_back word_start tokens num_words i' (j - 1)))
      else Inr j)"
  by pat_completeness auto
termination
proof (relation "measure (\<lambda>(w, tokens, n, i, j). nat (j + int (length tokens) + 1))")
  show "wf (measure (\<lambda>(w, tokens, n, i, j). nat (j + int (length tokens) + 1)))" by simp
next
  fix word_start :: "string \<Rightarrow> bool" and tokens :: "(string \<times> nat \<times> nat) list"
    and num_words i :: nat and j :: int and tk i'
  assume "py_index tokens j = Inr tk"
  then have "- int (length tokens) \<le> j"
    by (auto simp: py_index_def Let_def split: if_splits)
  then show "((word_start, tokens, num_words, i', j - 1), (word_start, tokens, num_words, i, j))
        \<in> measure (\<lambda>(w, tokens, n, i, j). nat (j + int (length tokens) + 1))"
    by simp
qed

text \<open>
  The loop over the fragments. \<open>tokenize\<close> and \<open>untokenize\<close> of \<open>adeft.nlp\<close> are
  parameters; a token comes with its span. \<open>srch\<close> is the subclass's \<open>_search\<close>. Only
  \<open>longform is None\<close> skips a fragment.
\<close>

fun strip_loop :: "(string list \<Rightarrow> error + string option) \<Rightarrow> (string \<Rightarrow> (string \<times> nat \<times> nat) list)
    \<Rightarrow> ((string \<times> nat \<times> nat) list \<Rightarrow> string) \<Rightarrow> (string \<Rightarrow> bool) \<Rightarrow> string \<Rightarrow> string list
    \<Rightarrow> error + string" where
  "strip_loop srch tokenize untokenize word_start text [] = Inr text"
| "strip_loop srch tokenize untokenize word_start text (fragment # fragments) =
     (let tokens = tokenize fragment
      in case srch (filter (\<lambda>token. \<not> str_in token punctuation) (map fst tokens)) of
           Inl e \<Rightarrow> Inl e
         | Inr None \<Rightarrow> strip_loop srch tokenize untokenize word_start text fragments
         | Inr (Some lf) \<Rightarrow>
             (case count_back word_start tokens (length (split_ws lf)) 0
                     (int (length tokens) - 1) of
                Inl e \<Rightarrow> Inl e
              | Inr j \<Rightarrow>
                  strip_loop srch tokenize untokenize word_start
                    (replace text (strip fragment) (untokenize (slice_to tokens (j + 1))))
                    fragments))"

text \<open>\<open>BaseRecognizer.strip_defining_patterns\<close>.\<close>

definition strip_defining_patterns :: "(string list \<Rightarrow> error + string option)
    \<Rightarrow> (string \<Rightarrow> string \<Rightarrow> int option \<Rightarrow> string list)
    \<Rightarrow> (string \<Rightarrow> (string \<times> nat \<times> nat) list) \<Rightarrow> ((string \<times> nat \<times> nat) list \<Rightarrow> string)
    \<Rightarrow> (string \<Rightarrow> bool) \<Rightarrow> 'a base_recognizer_scheme \<Rightarrow> string \<Rightarrow> error + string" where
  "strip_defining_patterns srch frags tokenize untokenize word_start r text =
     (case strip_loop srch tokenize untokenize word_start text
             (frags text (shortform r) None) of
        Inl e \<Rightarrow> Inl e
      | Inr text' \<Rightarrow>
          Inr (join_sp (split_ws (re_sub (shortform r) ('' '' @ shortform r @ '' '') text'))))"

text \<open>
  The sentence of the specification read literally: every parenthesized shortform is
  replaced by the shortform alone, and whitespace is normalized.
\<close>

definition strip_as_specified :: "string \<Rightarrow> string \<Rightarrow> string" where
  "strip_as_specified sf text = join_sp (split_ws (re_sub sf sf text))"

section \<open>The recognition trie: what \<open>_search\<close> returns\<close>

lemma search_first_hit:
  "j < length p \<Longrightarrow> descend t (take (Suc j) p) = Some n \<Longrightarrow> rlongform n = Some l \<Longrightarrow>
   (\<forall>i<j. \<forall>m. descend t (take (Suc i) p) = Some m \<longrightarrow> rlongform m = None) \<Longrightarrow>
   search_loop t p = Some l"
proof (induction p arbitrary: t j)
  case Nil
  then show ?case by simp
next
  case (Cons k ks)
  from Cons.prems(2) obtain c where c: "map_of (rchildren t) k = Some c"
    and dc: "descend c (take j ks) = Some n"
    by (auto split: option.splits)
  show ?case
  proof (cases j)
    case 0
    with dc Cons.prems(3) c show ?thesis by simp
  next
    case (Suc j')
    have "descend t (take (Suc 0) (k # ks)) = Some c" using c by simp
    with Cons.prems(4) Suc have cn: "rlongform c = None" by blast
    have jl: "j' < length ks" using Cons.prems(1) Suc by simp
    have dn: "descend c (take (Suc j') ks) = Some n" using dc Suc by simp
    have prev: "\<forall>i<j'. \<forall>m. descend c (take (Suc i) ks) = Some m \<longrightarrow> rlongform m = None"
    proof (intro allI impI)
      fix i m assume "i < j'" and "descend c (take (Suc i) ks) = Some m"
      then have "Suc i < j" and "descend t (take (Suc (Suc i)) (k # ks)) = Some m"
        using Suc c by simp_all
      with Cons.prems(4) show "rlongform m = None" by blast
    qed
    from Cons.IH[OF jl dn Cons.prems(3) prev] c cn show ?thesis by simp
  qed
qed

lemma search_absent:
  "j < length p \<Longrightarrow> descend t (take (Suc j) p) = None \<Longrightarrow>
   (\<forall>i<j. \<forall>m. descend t (take (Suc i) p) = Some m \<longrightarrow> rlongform m = None) \<Longrightarrow>
   search_loop t p = None"
proof (induction p arbitrary: t j)
  case Nil
  then show ?case by simp
next
  case (Cons k ks)
  show ?case
  proof (cases "map_of (rchildren t) k")
    case None
    then show ?thesis by simp
  next
    case (Some c)
    show ?thesis
    proof (cases j)
      case 0
      with Cons.prems(2) Some show ?thesis by simp
    next
      case (Suc j')
      have "descend t (take (Suc 0) (k # ks)) = Some c" using Some by simp
      with Cons.prems(3) Suc have cn: "rlongform c = None" by blast
      have jl: "j' < length ks" using Cons.prems(1) Suc by simp
      have dn: "descend c (take (Suc j') ks) = None" using Cons.prems(2) Some Suc by simp
      have prev: "\<forall>i<j'. \<forall>m. descend c (take (Suc i) ks) = Some m \<longrightarrow> rlongform m = None"
      proof (intro allI impI)
        fix i m assume "i < j'" and "descend c (take (Suc i) ks) = Some m"
        then have "Suc i < j" and "descend t (take (Suc (Suc i)) (k # ks)) = Some m"
          using Suc Some by simp_all
        with Cons.prems(3) show "rlongform m = None" by blast
      qed
      from Cons.IH[OF jl dn prev] Some cn show ?thesis by simp
    qed
  qed
qed

text \<open>
  \<^bold>\<open>C4.\<close> For every token list, \<open>_search\<close> walks the trie along the stemmed tokens taken
  from the last token (the one nearest the shortform) backwards. If the node reached after
  \<open>j + 1\<close> steps stores a longform and none of the nodes reached earlier does, that
  longform is returned, whatever lies deeper in the trie. If the child needed at step
  \<open>j + 1\<close> is absent and none of the nodes reached earlier stores a longform, the result
  is \<open>None\<close>.
\<close>

theorem C4_search_first_longform:
  "(j < length tokens
      \<and> descend t (take (Suc j) (map stem (rev tokens))) = Some n \<and> rlongform n = Some l
      \<and> (\<forall>i<j. \<forall>m. descend t (take (Suc i) (map stem (rev tokens))) = Some m \<longrightarrow> rlongform m = None)
    \<longrightarrow> search stem t tokens = Some l)
   \<and> (j < length tokens
      \<and> descend t (take (Suc j) (map stem (rev tokens))) = None
      \<and> (\<forall>i<j. \<forall>m. descend t (take (Suc i) (map stem (rev tokens))) = Some m \<longrightarrow> rlongform m = None)
    \<longrightarrow> search stem t tokens = None)"
  using search_first_hit[of j "map stem (rev tokens)" t n l]
        search_absent[of j "map stem (rev tokens)" t]
  by (simp add: search_def)

text \<open>A trie that holds a longer longform below a shorter one: the shorter one is returned.\<close>

theorem C4_search_first_longform_witness:
  "search (\<lambda>x. x)
     (R_TrieNode None [(''b'', R_TrieNode None [(''kappa'', R_TrieNode None
        [(''factor'', R_TrieNode (Some ''factor kappa b'')
           [(''nuclear'', R_TrieNode (Some ''nuclear factor kappa b'') [])])])])])
     [''nuclear'', ''factor'', ''kappa'', ''b''] = Some ''factor kappa b''
   \<and> search (\<lambda>x. x)
     (R_TrieNode None [(''b'', R_TrieNode None [(''kappa'', R_TrieNode None
        [(''factor'', R_TrieNode (Some ''factor kappa b'')
           [(''nuclear'', R_TrieNode (Some ''nuclear factor kappa b'') [])])])])])
     [''alpha'', ''kappa'', ''b''] = None"
proof -
  let ?T = "R_TrieNode None [(''b'', R_TrieNode None [(''kappa'', R_TrieNode None
        [(''factor'', R_TrieNode (Some ''factor kappa b'')
           [(''nuclear'', R_TrieNode (Some ''nuclear factor kappa b'') [])])])])]"
  have i2: "i < 2 \<longleftrightarrow> i = 0 \<or> i = Suc 0" for i :: nat by auto
  have a: "search (\<lambda>x. x) ?T [''nuclear'', ''factor'', ''kappa'', ''b''] = Some ''factor kappa b''"
    using C4_search_first_longform[of 2 "[''nuclear'', ''factor'', ''kappa'', ''b'']" ?T "\<lambda>x. x"
        "R_TrieNode (Some ''factor kappa b'')
           [(''nuclear'', R_TrieNode (Some ''nuclear factor kappa b'') [])]" "''factor kappa b''"]
    by (simp add: i2)
  have b: "search (\<lambda>x. x) ?T [''alpha'', ''kappa'', ''b''] = None"
    using C4_search_first_longform[of 2 "[''alpha'', ''kappa'', ''b'']" ?T "\<lambda>x. x"]
    by (simp add: i2)
  from a b show ?thesis by simp
qed

section \<open>The recognition trie: what \<open>_init_trie\<close> stores\<close>

text \<open>
  \<^bold>\<open>C3.\<close> Every longform of the grounding map should be stored at the node that its
  reversed stemmed tokens lead to, whatever the order of the entries. The code stores a
  longform only in a node that it creates for the last edge: with
  \<open>nuclear factor kappa b\<close> inserted before \<open>factor kappa b\<close>, the node at the end of the
  path of \<open>factor kappa b\<close> exists already and stores nothing; with the two entries in the
  other order it stores the longform.
\<close>

theorem C3_longform_with_existing_path_not_stored:
  assumes "tok ''nuclear factor kappa b'' = [''nuclear'', ''factor'', ''kappa'', ''b'']"
    and "tok ''factor kappa b'' = [''factor'', ''kappa'', ''b'']"
  shows "map_option rlongform
           (descend (trie (AdeftRecognizer_init tok stem sf
                       [(''nuclear factor kappa b'', ''G1''), (''factor kappa b'', ''G2'')] w ex))
              (edges_of tok stem ''factor kappa b'')) = Some None
       \<and> map_option rlongform
           (descend (trie (AdeftRecognizer_init tok stem sf
                       [(''factor kappa b'', ''G2''), (''nuclear factor kappa b'', ''G1'')] w ex))
              (edges_of tok stem ''factor kappa b'')) = Some (Some ''factor kappa b'')"
  using assms
  by (simp add: AdeftRecognizer_init_def base_recognizer.defs adeft_recognizer.defs
        BaseRecognizer_init_def init_trie_def edges_of_def)

theorem C3_longform_with_existing_path_not_stored_witness:
  "map_option rlongform
     (descend (trie (AdeftRecognizer_init
                 (\<lambda>lf. if lf = ''factor kappa b'' then [''factor'', ''kappa'', ''b'']
                        else [''nuclear'', ''factor'', ''kappa'', ''b''])
                 (\<lambda>x. x) ''NFKB''
                 [(''nuclear factor kappa b'', ''G1''), (''factor kappa b'', ''G2'')] 100 None))
        [''b'', ''kappa'', ''factor'']) = Some None"
  using C3_longform_with_existing_path_not_stored
    [of "\<lambda>lf. if lf = ''factor kappa b'' then [''factor'', ''kappa'', ''b'']
              else [''nuclear'', ''factor'', ''kappa'', ''b'']" "\<lambda>x. x" "''NFKB''" 100 None]
  by (simp add: edges_of_def)

section \<open>Recognition with the NFKB grounding map\<close>

lemma recognize_loop_single_longform:
  assumes only: "\<And>f. srch (cand f ex) = Inr None \<or> srch (cand f ex) = Inr (Some lf)"
    and ne: "lf \<noteq> []" and post: "post lf = Inr g"
  shows "recognize_loop srch post cand ex E fs =
     Inr (if \<exists>f\<in>set fs. f \<noteq> [] \<and> srch (cand f ex) = Inr (Some lf) then insert g E else E)"
proof (induction fs arbitrary: E)
  case Nil
  show ?case by simp
next
  case (Cons f fs)
  from only[of f] show ?case
  proof
    assume "srch (cand f ex) = Inr None"
    then show ?thesis using Cons.IH by simp
  next
    assume h: "srch (cand f ex) = Inr (Some lf)"
    show ?thesis
    proof (cases "f = []")
      case True
      then show ?thesis using Cons.IH by simp
    next
      case False
      then show ?thesis using h ne post Cons.IH[of "insert g E"] by auto
    qed
  qed
qed

lemma search_loop_chain:
  "search_loop (R_TrieNode None [(k1, R_TrieNode None [(k2, R_TrieNode None
      [(k3, R_TrieNode None [(k4, R_TrieNode (Some lf) [])])])])]) p = None \<or>
   search_loop (R_TrieNode None [(k1, R_TrieNode None [(k2, R_TrieNode None
      [(k3, R_TrieNode None [(k4, R_TrieNode (Some lf) [])])])])]) p = Some lf"
proof -
  have l4: "\<And>p. search_loop (R_TrieNode None [(k4, R_TrieNode (Some lf) [])]) p \<in> {None, Some lf}"
    subgoal for p by (cases p) auto
    done
  have l3: "\<And>p. search_loop (R_TrieNode None [(k3, R_TrieNode None [(k4, R_TrieNode (Some lf) [])])]) p \<in> {None, Some lf}"
    subgoal for p using l4 by (cases p) auto
    done
  have l2: "\<And>p. search_loop (R_TrieNode None [(k2, R_TrieNode None [(k3, R_TrieNode None [(k4, R_TrieNode (Some lf) [])])])]) p \<in> {None, Some lf}"
    subgoal for p using l3 by (cases p) auto
    done
  show ?thesis using l2 by (cases p) auto
qed

lemma init_trie_nfkb:
  assumes "tok ''nuclear factor kappa b'' = [''nuclear'', ''factor'', ''kappa'', ''b'']"
    and "tok ''factor kappa b'' = [''factor'', ''kappa'', ''b'']"
  shows "init_trie tok stem [(''nuclear factor kappa b'', ''G1''), (''factor kappa b'', ''G2'')] =
   R_TrieNode None [(stem ''b'', R_TrieNode None [(stem ''kappa'', R_TrieNode None
      [(stem ''factor'', R_TrieNode None [(stem ''nuclear'', R_TrieNode (Some ''nuclear factor kappa b'') [])])])])]"
  using assms by (simp add: init_trie_def edges_of_def)

text \<open>
  \<^bold>\<open>C5.\<close> With the grounding map \<open>{"nuclear factor kappa b": "G1", "factor kappa b": "G2"}\<close>
  in that order and the shortform \<open>NFKB\<close>, \<open>recognize\<close> returns exactly \<open>{"G1"}\<close> for a
  text one of whose candidate fragments ends with the tokens \<open>nuclear factor kappa b\<close>. The
  tokenizer is only required to split the two longforms into their words; the stemmer, the
  fragment extraction and the candidate extraction are arbitrary.
\<close>

theorem C5_recognize_nfkb:
  assumes t1: "tok ''nuclear factor kappa b'' = [''nuclear'', ''factor'', ''kappa'', ''b'']"
    and t2: "tok ''factor kappa b'' = [''factor'', ''kappa'', ''b'']"
    and fr: "\<exists>f \<in> set (frags text ''NFKB'' (Some w)). f \<noteq> [] \<and>
               (\<exists>pre. cand f (case ex of None \<Rightarrow> {} | Some e \<Rightarrow> e) = pre @ [''nuclear'', ''factor'', ''kappa'', ''b''])"
  shows "recognize frags cand stem
           (AdeftRecognizer_init tok stem ''NFKB''
              [(''nuclear factor kappa b'', ''G1''), (''factor kappa b'', ''G2'')] w ex) text
         = Inr {''G1''}"
proof -
  let ?gm = "[(''nuclear factor kappa b'', ''G1''), (''factor kappa b'', ''G2'')]"
  let ?r = "AdeftRecognizer_init tok stem ''NFKB'' ?gm w ex"
  let ?ex = "case ex of None \<Rightarrow> {} | Some e \<Rightarrow> e"
  let ?srch = "\<lambda>tokens. Inr (search stem (trie ?r) tokens) :: error + string option"
  have tr: "trie ?r = R_TrieNode None [(stem ''b'', R_TrieNode None [(stem ''kappa'', R_TrieNode None
      [(stem ''factor'', R_TrieNode None [(stem ''nuclear'', R_TrieNode (Some ''nuclear factor kappa b'') [])])])])]"
    using init_trie_nfkb[OF t1 t2, of stem]
    by (simp add: AdeftRecognizer_init_def base_recognizer.defs adeft_recognizer.defs BaseRecognizer_init_def)
  have flds: "shortform ?r = ''NFKB''" "window ?r = w" "exclude ?r = ?ex" "grounding_map ?r = ?gm"
    by (simp_all add: AdeftRecognizer_init_def base_recognizer.defs adeft_recognizer.defs BaseRecognizer_init_def)
  have only: "\<And>f. ?srch (cand f ?ex) = Inr None \<or> ?srch (cand f ?ex) = Inr (Some ''nuclear factor kappa b'')"
    unfolding tr search_def using search_loop_chain by simp
  have post: "post_process ?r ''nuclear factor kappa b'' = Inr ''G1''"
    by (simp add: post_process_def flds)
  from fr obtain f pre where f: "f \<in> set (frags text ''NFKB'' (Some w))" "f \<noteq> []"
    "cand f ?ex = pre @ [''nuclear'', ''factor'', ''kappa'', ''b'']" by blast
  have hit: "?srch (cand f ?ex) = Inr (Some ''nuclear factor kappa b'')"
    unfolding tr search_def f(3) by simp
  have "recognize frags cand stem ?r text =
      recognize_loop ?srch (post_process ?r) cand ?ex {} (frags text ''NFKB'' (Some w))"
    by (simp add: recognize_def base_recognize_def flds)
  also have "\<dots> = Inr (if \<exists>f\<in>set (frags text ''NFKB'' (Some w)). f \<noteq> [] \<and> ?srch (cand f ?ex) = Inr (Some ''nuclear factor kappa b'')
       then insert ''G1'' {} else {})"
    using recognize_loop_single_longform[where srch = ?srch and cand = cand and ex = ?ex
        and lf = "''nuclear factor kappa b''" and post = "post_process ?r" and g = "''G1''"
        and E = "{}" and fs = "frags text ''NFKB'' (Some w)"] only post
    by simp
  also have "\<dots> = Inr {''G1''}" using f(1,2) hit by auto
  finally show ?thesis .
qed

theorem C5_recognize_nfkb_witness:
  "recognize (\<lambda>text sf w. [''the nuclear factor kappa b ''])
     (\<lambda>fragment ex. [''the'', ''nuclear'', ''factor'', ''kappa'', ''b''])
     (\<lambda>x. x)
     (AdeftRecognizer_init
        (\<lambda>lf. if lf = ''factor kappa b'' then [''factor'', ''kappa'', ''b'']
              else [''nuclear'', ''factor'', ''kappa'', ''b''])
        (\<lambda>x. x) ''NFKB''
        [(''nuclear factor kappa b'', ''G1''), (''factor kappa b'', ''G2'')] 100 None)
     ''the nuclear factor kappa b (NFKB) gene''
   = Inr {''G1''}"
  by (rule C5_recognize_nfkb) (simp_all add: exI[where x = "[''the'']"])

section \<open>Constructing a \<open>OneShotRecognizer\<close> without its scorer\<close>

text \<open>
  \<^bold>\<open>C6.\<close> When using \<open>AdeftLongformScorer\<close> raises \<open>NameError\<close> (the name is unbound
  because the import failed), \<open>OneShotRecognizer.__init__\<close> does not raise: it logs the
  exception and returns a recognizer that has no \<open>scorer\<close> attribute, and every later
  \<open>_search\<close> on it raises \<open>AttributeError\<close>.
\<close>

theorem C6_name_error_is_swallowed:
  assumes "(case ctor of None \<Rightarrow> Inl NameError | Some mk \<Rightarrow> mk sf) = Inl NameError"
  shows "\<exists>r msgs. OneShotRecognizer_init ctor sf w ex = Inr (r, msgs)
           \<and> scorer r = None \<and> shortform r = sf \<and> window r = w \<and> msgs \<noteq> []
           \<and> (\<forall>tokens. oneshot_search score r tokens = Inl AttributeError)"
  using assms
  by (simp add: OneShotRecognizer_init_def oneshot_search_def base_recognizer.defs
        oneshot_recognizer.defs BaseRecognizer_init_def)

theorem C6_name_error_is_swallowed_witness:
  "\<exists>r msgs. OneShotRecognizer_init (None :: (string \<Rightarrow> error + unit) option) ''NFKB'' 100 None
               = Inr (r, msgs)
     \<and> scorer r = None \<and> msgs \<noteq> []
     \<and> oneshot_search (\<lambda>s tokens. Inr (Some ''x'', ())) r [''a''] = Inl AttributeError"
  using C6_name_error_is_swallowed[where ctor = "None :: (string \<Rightarrow> error + unit) option"
          and sf = "''NFKB''" and w = 100 and ex = None
          and score = "\<lambda>s tokens. Inr (Some ''x'', ())"]
  by auto

text \<open>Construction with the name unbound returns a recognizer.\<close>

theorem C6_construction_completes_counterexample:
  "OneShotRecognizer_init (None :: (string \<Rightarrow> error + unit) option) ''NFKB'' 100 None
   = Inr (\<lparr>shortform = ''NFKB'', window = 100, exclude = {}, scorer = None\<rparr>,
          [''OneShotRecognizer not available. AdeftLongformScorer has not been built successfully.''])"
  by (simp add: OneShotRecognizer_init_def base_recognizer.defs oneshot_recognizer.defs
        BaseRecognizer_init_def)

section \<open>The likelihood relation in the mining trie\<close>

lemma update_defined:
  "0 \<le> sum_ft2 s \<Longrightarrow> 1 \<le> c \<Longrightarrow>
   \<exists>s'. update_likelihood ops s c = Inr s' \<and> 0 < sum_ft2 s'
     \<and> count s' = count s \<and> length_penalty s' = length_penalty s"
  by (auto simp: update_likelihood_def Let_def)

lemma increment_keeps_relation:
  "exact_rel lf s \<Longrightarrow> exact_rel lf (increment_count exact_ops s)"
  by (auto simp: exact_rel_def lh_relation_def increment_count_def exact_ops_def algebra_simps)

lemma update_keeps_relation:
  "exact_rel lf s \<Longrightarrow> update_likelihood exact_ops s c = Inr s' \<Longrightarrow> exact_rel lf s'"
  by (auto simp: exact_rel_def lh_relation_def update_likelihood_def exact_ops_def Let_def
      split: if_splits)

lemma new_keeps_relation:
  "lf \<noteq> [] \<Longrightarrow> stats (new_TrieNode exact_ops lf) = Some s \<Longrightarrow> exact_rel lf s"
  by (auto simp: new_TrieNode_def exact_rel_def lh_relation_def exact_ops_def)

text \<open>
  A relation \<open>R\<close> that new nodes satisfy and that the two methods preserve is kept by
  the insertion loop, together with the ranges of the counters; the loop never raises.
\<close>

lemma good_new:
  assumes "\<And>lf s. lf \<noteq> [] \<Longrightarrow> stats (new_TrieNode ops lf) = Some s \<Longrightarrow> R lf s"
    and "lf \<noteq> []"
  shows "good R lf (stats (new_TrieNode ops lf))"
proof -
  obtain s where s: "stats (new_TrieNode ops lf) = Some s" "count s = 1" "sum_ft2 s = 0"
    using assms(2) by (simp add: new_TrieNode_def)
  with assms show ?thesis by (simp add: good_def)
qed

lemma good_increment:
  assumes "\<And>lf s. R lf s \<Longrightarrow> R lf (increment_count ops s)"
    and "good R lf (Some s)"
  shows "good R lf (Some (increment_count ops s))"
proof -
  from assms(2) have "R lf s" "1 \<le> count s" "0 \<le> sum_ft2 s" by (simp_all add: good_def)
  with assms(1)[of lf s] show ?thesis by (simp add: good_def) (simp add: increment_count_def)
qed

lemma good_update:
  assumes "\<And>lf s c s'. R lf s \<Longrightarrow> update_likelihood ops s c = Inr s' \<Longrightarrow> R lf s'"
    and "good R lf (Some s)" "1 \<le> c"
  shows "\<exists>s'. update_likelihood ops s c = Inr s' \<and> good R lf (Some s')"
proof -
  from assms(2) have g: "R lf s" "1 \<le> count s" "0 \<le> sum_ft2 s" by (simp_all add: good_def)
  from update_defined[OF g(3) assms(3), of ops] obtain s' where
    s': "update_likelihood ops s c = Inr s'" "0 < sum_ft2 s'" "count s' = count s" by auto
  from assms(1)[OF g(1) s'(1)] have "R lf s'" .
  with s' g show ?thesis by (simp add: good_def)
qed

lemma wf_sub_iff:
  "wf_sub R n \<longleftrightarrow> good R (longform n) (stats n) \<and> (\<forall>c \<in> snd ` set (children n). wf_sub R c)"
  by (cases n) simp

lemma update_children_subset: "snd ` set (AList.update k v al) \<subseteq> insert v (snd ` set al)"
  by (induction al) auto

lemma wf_set_child:
  assumes "wf_current R n" "wf_sub R c"
  shows "wf_current R (set_child n k c)"
proof -
  have "\<forall>x \<in> snd ` set (AList.update k c (children n)). wf_sub R x"
  proof
    fix x assume "x \<in> snd ` set (AList.update k c (children n))"
    then have "x = c \<or> x \<in> snd ` set (children n)"
      using update_children_subset[of k c "children n"] by blast
    then show "wf_sub R x" using assms unfolding wf_current_def by blast
  qed
  with assms(1) show ?thesis by (simp add: wf_current_def set_child_def)
qed

lemma set_child_sel: "longform (set_child n k c) = longform n" "stats (set_child n k c) = stats n"
  by (simp_all add: set_child_def)

lemma wf_current_sub: "wf_current R n \<Longrightarrow> stats n \<noteq> None \<Longrightarrow> wf_sub R n"
  by (auto simp: wf_current_def wf_sub_iff[of R n])

lemma add_loop_wf:
  assumes Rnew: "\<And>lf s. lf \<noteq> [] \<Longrightarrow> stats (new_TrieNode ops lf) = Some s \<Longrightarrow> R lf s"
    and Rinc: "\<And>lf s. R lf s \<Longrightarrow> R lf (increment_count ops s)"
    and Rupd: "\<And>lf s c s'. R lf s \<Longrightarrow> update_likelihood ops s c = Inr s' \<Longrightarrow> R lf s'"
  shows "wf_current R cur \<Longrightarrow>
   \<exists>cur' lfs'. add_loop ops cur lfs toks = Inr (cur', lfs') \<and> wf_current R cur'
      \<and> longform cur' = longform cur \<and> (stats cur' = None \<longleftrightarrow> stats cur = None)"
proof (induction toks arbitrary: cur lfs)
  case Nil
  then show ?case by simp
next
  case (Cons token toks)
  show ?case
  proof (cases "map_of (children cur) token")
    case None
    let ?new = "new_TrieNode ops (longform cur @ [token])"
    have gn: "good R (longform cur @ [token]) (stats ?new)"
      by (rule good_new[where R = R and ops = ops, OF Rnew]) simp_all
    then obtain ns where ns: "stats ?new = Some ns" by (auto simp: good_def split: option.splits)
    have lfn: "longform ?new = longform cur @ [token]" by (simp add: new_TrieNode_def)
    have wn: "wf_current R ?new" using gn by (simp add: wf_current_def lfn) (simp add: new_TrieNode_def)
    define lfs0 where "lfs0 = lfs(rev (longform ?new) \<mapsto> LH ns)"
    from Cons.IH[OF wn, of lfs0] obtain new' lfs' where
      r: "add_loop ops ?new lfs0 toks = Inr (new', lfs')"
      and w: "wf_current R new'" and st0: "stats new' = None \<longleftrightarrow> stats ?new = None"
      by auto
    have st: "stats new' \<noteq> None" using st0 ns by simp
    have "wf_sub R new'" using wf_current_sub[OF w st] .
    with Cons.prems have "wf_current R (set_child cur token new')" by (rule wf_set_child)
    then show ?thesis using None ns r unfolding lfs0_def by (simp add: Let_def set_child_sel)
  next
    case (Some child)
    then have "child \<in> snd ` set (children cur)" by (force dest: map_of_SomeD)
    with Cons.prems have wc: "wf_sub R child" unfolding wf_current_def by blast
    then obtain cs where cs: "stats child = Some cs" and gc: "good R (longform child) (Some cs)"
      by (auto simp: wf_sub_iff[of R child] good_def split: option.splits)
    let ?cs' = "increment_count ops cs"
    let ?child' = "TrieNode (longform child) (Some ?cs') (children child)"
    let ?lfs1 = "lfs(rev (longform ?child') \<mapsto> LH ?cs')"
    have gc': "good R (longform child) (Some ?cs')"
      by (rule good_increment[where R = R and ops = ops, OF Rinc gc])
    have c2: "1 \<le> count ?cs'" using gc by (simp add: good_def increment_count_def)
    have wch: "wf_current R ?child'" using gc' wc by (simp add: wf_current_def wf_sub_iff[of R child])
    define par where "par = (if longform cur \<noteq> []
                 then (case stats cur of
                         None \<Rightarrow> Inl AttributeError
                       | Some ps \<Rightarrow>
                           (case update_likelihood ops ps (count ?cs') of
                              Inl e \<Rightarrow> Inl e
                            | Inr ps' \<Rightarrow>
                                Inr (TrieNode (longform cur) (Some ps') (children cur),
                                     ?lfs1(rev (longform cur) \<mapsto> LH ps'))))
                 else Inr (cur, ?lfs1))"
    have "\<exists>cur1 lfs2. par = Inr (cur1, lfs2) \<and> wf_current R cur1 \<and> longform cur1 = longform cur
            \<and> (stats cur1 = None \<longleftrightarrow> stats cur = None)"
    proof (cases "longform cur = []")
      case True
      then have "par = Inr (cur, ?lfs1)" by (simp add: par_def)
      with Cons.prems show ?thesis by (intro exI[of _ cur] exI[of _ "?lfs1"]) simp
    next
      case False
      with Cons.prems obtain ps where ps: "stats cur = Some ps" and gp: "good R (longform cur) (Some ps)"
        by (auto simp: wf_current_def good_def split: option.splits)
      have "\<exists>s'. update_likelihood ops ps (count ?cs') = Inr s' \<and> good R (longform cur) (Some s')"
        by (rule good_update[where R = R and ops = ops, OF Rupd gp c2])
      then obtain ps' where
        u: "update_likelihood ops ps (count ?cs') = Inr ps'" and gp': "good R (longform cur) (Some ps')"
        by auto
      have wp: "wf_current R (TrieNode (longform cur) (Some ps') (children cur))"
        using gp' Cons.prems by (simp add: wf_current_def)
      have "par = Inr (TrieNode (longform cur) (Some ps') (children cur),
                       ?lfs1(rev (longform cur) \<mapsto> LH ps'))"
        using False ps u by (simp add: par_def)
      with wp ps show ?thesis
        by (intro exI[of _ "TrieNode (longform cur) (Some ps') (children cur)"]
                  exI[of _ "?lfs1(rev (longform cur) \<mapsto> LH ps')"]) simp
    qed
    then obtain cur1 lfs2 where p: "par = Inr (cur1, lfs2)" and w1: "wf_current R cur1"
      and l1: "longform cur1 = longform cur" and s1: "stats cur1 = None \<longleftrightarrow> stats cur = None" by auto
    from Cons.IH[OF wch, of lfs2] obtain child'' lfs' where
      r: "add_loop ops ?child' lfs2 toks = Inr (child'', lfs')" and w2: "wf_current R child''"
      and st0: "stats child'' = None \<longleftrightarrow> stats ?child' = None" by auto
    have st: "stats child'' \<noteq> None" using st0 by simp
    have "wf_sub R child''" using wf_current_sub[OF w2 st] .
    with w1 have "wf_current R (set_child cur1 token child'')" by (rule wf_set_child)
    moreover have "add_loop ops cur lfs (token # toks) =
        (case par of Inl e \<Rightarrow> Inl e
         | Inr (current', lfs2) \<Rightarrow>
            (case add_loop ops ?child' lfs2 toks of Inl e \<Rightarrow> Inl e
             | Inr (child'', lfs') \<Rightarrow> Inr (set_child current' token child'', lfs')))"
      using Some cs unfolding par_def by (simp add: Let_def)
    then have "add_loop ops cur lfs (token # toks) = Inr (set_child cur1 token child'', lfs')"
      by (simp add: p r)
    ultimately show ?thesis using l1 s1 by (simp add: set_child_sel)
  qed
qed

lemma node_at_wf_sub:
  "wf_sub R n \<Longrightarrow> node_at n path = Some x \<Longrightarrow> good R (longform x) (stats x)"
proof (induction path arbitrary: n)
  case Nil
  then show ?case by (simp add: wf_sub_iff[of R n])
next
  case (Cons k ks)
  from Cons.prems(2) obtain c where c: "map_of (children n) k = Some c" and x: "node_at c ks = Some x"
    by (auto split: option.splits)
  from c have "c \<in> snd ` set (children n)" by (force dest: map_of_SomeD)
  with Cons.prems(1) have "wf_sub R c" using wf_sub_iff[of R n] by blast
  from Cons.IH[OF this x] show ?case .
qed

lemma node_at_wf_current:
  assumes "wf_current R r" "path \<noteq> []" "node_at r path = Some x"
  shows "good R (longform x) (stats x)"
proof -
  from assms(2) obtain k ks where p: "path = k # ks" by (cases path) auto
  with assms(3) obtain c where c: "map_of (children r) k = Some c" and x: "node_at c ks = Some x"
    by (auto split: option.splits)
  from c have "c \<in> snd ` set (children r)" by (force dest: map_of_SomeD)
  with assms(1) have "wf_sub R c" unfolding wf_current_def by blast
  from node_at_wf_sub[OF this x] show ?thesis .
qed

lemma add_all_wf:
  assumes Rnew: "\<And>lf s. lf \<noteq> [] \<Longrightarrow> stats (new_TrieNode ops lf) = Some s \<Longrightarrow> R lf s"
    and Rinc: "\<And>lf s. R lf s \<Longrightarrow> R lf (increment_count ops s)"
    and Rupd: "\<And>lf s c s'. R lf s \<Longrightarrow> update_likelihood ops s c = Inr s' \<Longrightarrow> R lf s'"
  shows "wf_current R (internal_trie m) \<Longrightarrow>
   \<exists>m'. add_all ops stem m (map Some tss) = Inr m' \<and> wf_current R (internal_trie m')"
proof (induction tss arbitrary: m)
  case Nil
  then show ?case by simp
next
  case (Cons ts tss)
  have "\<exists>cur' lfs'. add_loop ops (internal_trie m) (longforms m) (rev (map stem ts)) = Inr (cur', lfs')
      \<and> wf_current R cur' \<and> longform cur' = longform (internal_trie m)
      \<and> (stats cur' = None \<longleftrightarrow> stats (internal_trie m) = None)"
    by (rule add_loop_wf[where ops = ops and R = R, OF Rnew Rinc Rupd Cons.prems])
  then obtain t lfs where
    a: "add_loop ops (internal_trie m) (longforms m) (rev (map stem ts)) = Inr (t, lfs)"
    and w: "wf_current R t" by auto
  let ?m1 = "m\<lparr>internal_trie := t, longforms := lfs\<rparr>"
  have m1: "miner_add ops stem m (Some ts) = Inr ?m1" using a by (simp add: miner_add_def)
  have "wf_current R (internal_trie ?m1)" using w by simp
  from Cons.IH[OF this] m1 show ?case by simp
qed

lemma wf_fresh: "wf_current R (internal_trie (ContinuousMiner_init ops sf ex))"
  by (simp add: ContinuousMiner_init_def wf_current_def new_TrieNode_def)

lemma add_all_good:
  assumes Rnew: "\<And>lf s. lf \<noteq> [] \<Longrightarrow> stats (new_TrieNode ops lf) = Some s \<Longrightarrow> R lf s"
    and Rinc: "\<And>lf s. R lf s \<Longrightarrow> R lf (increment_count ops s)"
    and Rupd: "\<And>lf s c s'. R lf s \<Longrightarrow> update_likelihood ops s c = Inr s' \<Longrightarrow> R lf s'"
  shows "\<exists>m. add_all ops stem (ContinuousMiner_init ops sf ex) (map Some tss) = Inr m \<and>
        (\<forall>path n. path \<noteq> [] \<and> node_at (internal_trie m) path = Some n \<longrightarrow>
           (\<exists>s. stats n = Some s \<and> 1 \<le> count s \<and> 0 \<le> sum_ft2 s \<and> R (longform n) s))"
proof -
  have "\<exists>m'. add_all ops stem (ContinuousMiner_init ops sf ex) (map Some tss) = Inr m'
      \<and> wf_current R (internal_trie m')"
    by (rule add_all_wf[where ops = ops and R = R, OF Rnew Rinc Rupd wf_fresh])
  then obtain m where
    m: "add_all ops stem (ContinuousMiner_init ops sf ex) (map Some tss) = Inr m"
       "wf_current R (internal_trie m)" by auto
  have "\<exists>s. stats n = Some s \<and> 1 \<le> count s \<and> 0 \<le> sum_ft2 s \<and> R (longform n) s"
    if "path \<noteq> [] \<and> node_at (internal_trie m) path = Some n" for path n
    using node_at_wf_current[OF m(2), of path n] that
    by (auto simp: good_def split: option.splits)
  with m(1) show ?thesis by auto
qed

text \<open>
  \<^bold>\<open>C1.\<close> Any sequence of \<open>_add\<close> calls on a fresh miner succeeds, whatever the float
  arithmetic, and afterwards every node below the root has its statistics with
  \<open>count \<ge> 1\<close> and \<open>sum_ft2 \<ge> 0\<close>. In exact arithmetic every such node satisfies
  \<open>LH = count * log(len(longform)) - (sum_ft/sum_ft2 if sum_ft2 != 0 else 0)\<close>. A newly
  created node has count 1, both sums 0 and \<open>LH = log(len(longform))\<close> in any arithmetic,
  and in exact arithmetic the relation holds for it and is preserved by
  \<open>increment_count\<close> and by \<open>update_likelihood\<close>.
\<close>

theorem C1_likelihood_invariant:
  "(\<exists>m. add_all ops stem (ContinuousMiner_init ops sf ex) (map Some tss) = Inr m \<and>
        (\<forall>path n. path \<noteq> [] \<and> node_at (internal_trie m) path = Some n \<longrightarrow>
           (\<exists>s. stats n = Some s \<and> 1 \<le> count s \<and> 0 \<le> sum_ft2 s)))
   \<and> (\<exists>m. add_all exact_ops stem (ContinuousMiner_init exact_ops sf ex) (map Some tss) = Inr m \<and>
        (\<forall>path n. path \<noteq> [] \<and> node_at (internal_trie m) path = Some n \<longrightarrow>
           (\<exists>s. stats n = Some s \<and> lh_relation (longform n) s)))
   \<and> (lf \<noteq> [] \<longrightarrow>
         (\<exists>s. stats (new_TrieNode ops lf) = Some s \<and> count s = 1 \<and> sum_ft s = 0 \<and> sum_ft2 s = 0
              \<and> LH s = flog ops (length lf) \<and> length_penalty s = flog ops (length lf)))
   \<and> (lf \<noteq> [] \<longrightarrow>
         (\<exists>s. stats (new_TrieNode exact_ops lf) = Some s \<and> LH s = ln (real (length lf))
              \<and> lh_relation lf s))
   \<and> (lh_relation lf s0 \<and> length_penalty s0 = ln (real (length lf))
         \<longrightarrow> lh_relation lf (increment_count exact_ops s0)
             \<and> length_penalty (increment_count exact_ops s0) = ln (real (length lf)))
   \<and> (lh_relation lf s0 \<and> update_likelihood exact_ops s0 c = Inr s1
         \<longrightarrow> lh_relation lf s1 \<and> length_penalty s1 = length_penalty s0)"
proof (intro conjI impI)
  have "\<exists>m. add_all ops stem (ContinuousMiner_init ops sf ex) (map Some tss) = Inr m \<and>
        (\<forall>path n. path \<noteq> [] \<and> node_at (internal_trie m) path = Some n \<longrightarrow>
           (\<exists>s. stats n = Some s \<and> 1 \<le> count s \<and> 0 \<le> sum_ft2 s \<and> (\<lambda>lf s. True) (longform n) s))"
    by (rule add_all_good[where R = "\<lambda>lf s. True"]) simp_all
  then show "\<exists>m. add_all ops stem (ContinuousMiner_init ops sf ex) (map Some tss) = Inr m \<and>
        (\<forall>path n. path \<noteq> [] \<and> node_at (internal_trie m) path = Some n \<longrightarrow>
           (\<exists>s. stats n = Some s \<and> 1 \<le> count s \<and> 0 \<le> sum_ft2 s))" by simp
next
  have "\<exists>m. add_all exact_ops stem (ContinuousMiner_init exact_ops sf ex) (map Some tss) = Inr m \<and>
        (\<forall>path n. path \<noteq> [] \<and> node_at (internal_trie m) path = Some n \<longrightarrow>
           (\<exists>s. stats n = Some s \<and> 1 \<le> count s \<and> 0 \<le> sum_ft2 s \<and> exact_rel (longform n) s))"
    by (rule add_all_good[where R = exact_rel and ops = exact_ops,
          OF new_keeps_relation increment_keeps_relation update_keeps_relation])
  then obtain m where
    m: "add_all exact_ops stem (ContinuousMiner_init exact_ops sf ex) (map Some tss) = Inr m"
    and a: "\<forall>path n. path \<noteq> [] \<and> node_at (internal_trie m) path = Some n \<longrightarrow>
           (\<exists>s. stats n = Some s \<and> 1 \<le> count s \<and> 0 \<le> sum_ft2 s \<and> exact_rel (longform n) s)"
    by auto
  have "\<forall>path n. path \<noteq> [] \<and> node_at (internal_trie m) path = Some n \<longrightarrow>
           (\<exists>s. stats n = Some s \<and> lh_relation (longform n) s)"
  proof (intro allI impI)
    fix path n assume "path \<noteq> [] \<and> node_at (internal_trie m) path = Some n"
    with a obtain s where "stats n = Some s" "exact_rel (longform n) s" by blast
    then show "\<exists>s. stats n = Some s \<and> lh_relation (longform n) s"
      by (auto simp: exact_rel_def)
  qed
  with m show "\<exists>m. add_all exact_ops stem (ContinuousMiner_init exact_ops sf ex) (map Some tss) = Inr m \<and>
        (\<forall>path n. path \<noteq> [] \<and> node_at (internal_trie m) path = Some n \<longrightarrow>
           (\<exists>s. stats n = Some s \<and> lh_relation (longform n) s))"
    by (intro exI[where x = m]) simp
next
  assume "lf \<noteq> []"
  then show "\<exists>s. stats (new_TrieNode ops lf) = Some s \<and> count s = 1 \<and> sum_ft s = 0 \<and> sum_ft2 s = 0
              \<and> LH s = flog ops (length lf) \<and> length_penalty s = flog ops (length lf)"
    by (simp add: new_TrieNode_def)
next
  assume "lf \<noteq> []"
  then show "\<exists>s. stats (new_TrieNode exact_ops lf) = Some s \<and> LH s = ln (real (length lf))
              \<and> lh_relation lf s"
    by (simp add: new_TrieNode_def lh_relation_def exact_ops_def)
next
  assume "lh_relation lf s0 \<and> length_penalty s0 = ln (real (length lf))"
  then show "lh_relation lf (increment_count exact_ops s0)"
    using increment_keeps_relation[of lf s0] by (simp add: exact_rel_def)
next
  assume "lh_relation lf s0 \<and> length_penalty s0 = ln (real (length lf))"
  then show "length_penalty (increment_count exact_ops s0) = ln (real (length lf))"
    by (simp add: increment_count_def)
next
  assume "lh_relation lf s0 \<and> update_likelihood exact_ops s0 c = Inr s1"
  then show "lh_relation lf s1"
    by (auto simp: lh_relation_def update_likelihood_def exact_ops_def Let_def split: if_splits)
next
  assume "lh_relation lf s0 \<and> update_likelihood exact_ops s0 c = Inr s1"
  then show "length_penalty s1 = length_penalty s0"
    by (auto simp: update_likelihood_def Let_def split: if_splits)
qed

theorem C1_likelihood_invariant_witness:
  "\<exists>m n s. add_all exact_ops (\<lambda>x. x) (ContinuousMiner_init exact_ops ''ER'' None)
       (map Some [[''estrogen'', ''receptor''], [''estrogen'', ''receptor'']]) = Inr m
     \<and> node_at (internal_trie m) [''receptor''] = Some n \<and> stats n = Some s
     \<and> 1 \<le> count s \<and> 0 \<le> sum_ft2 s
     \<and> lh_relation (longform n) s
     \<and> lh_relation [''receptor''] (increment_count exact_ops
          \<lparr>count = 1, sum_ft = 0, sum_ft2 = 0, LH = 0, length_penalty = 0\<rparr>)
     \<and> lh_relation [''receptor'']
          \<lparr>count = 1, sum_ft = 1, sum_ft2 = 3, LH = - (1 / 3), length_penalty = 0\<rparr>"
proof -
  let ?tss = "[[''estrogen'', ''receptor''], [''estrogen'', ''receptor'']]"
  let ?s0 = "\<lparr>count = 1, sum_ft = 0, sum_ft2 = 0, LH = 0 :: real, length_penalty = 0 :: real\<rparr>"
  let ?s1 = "\<lparr>count = 1, sum_ft = 1, sum_ft2 = 3, LH = - (1 / 3) :: real, length_penalty = 0 :: real\<rparr>"
  note th = C1_likelihood_invariant[where ops = exact_ops and stem = "\<lambda>x. x" and sf = "''ER''"
      and ex = None and tss = ?tss and lf = "[''receptor'']" and ?s0.0 = ?s0 and c = 2 and ?s1.0 = ?s1]
  from th obtain m where
    m: "add_all exact_ops (\<lambda>x. x) (ContinuousMiner_init exact_ops ''ER'' None) (map Some ?tss) = Inr m"
    and rng: "\<forall>path n. path \<noteq> [] \<and> node_at (internal_trie m) path = Some n \<longrightarrow>
           (\<exists>s. stats n = Some s \<and> 1 \<le> count s \<and> 0 \<le> sum_ft2 s)"
    by auto
  from th obtain m' where
    m': "add_all exact_ops (\<lambda>x. x) (ContinuousMiner_init exact_ops ''ER'' None) (map Some ?tss) = Inr m'"
    and all: "\<forall>path n. path \<noteq> [] \<and> node_at (internal_trie m') path = Some n \<longrightarrow>
           (\<exists>s. stats n = Some s \<and> lh_relation (longform n) s)"
    by auto
  from m m' have mm: "m' = m" by simp
  have "\<exists>n. node_at (internal_trie m) [''receptor''] = Some n"
    using m
    by (auto simp: miner_add_def ContinuousMiner_init_def new_TrieNode_def increment_count_def
        update_likelihood_def set_child_def Let_def)
  then obtain n where n: "node_at (internal_trie m) [''receptor''] = Some n" by auto
  with all mm obtain s where s: "stats n = Some s" "lh_relation (longform n) s" by blast
  have ne: "[''receptor''] \<noteq> []" by simp
  from rng ne n obtain s' where "stats n = Some s'" "1 \<le> count s'" "0 \<le> sum_ft2 s'" by blast
  with s(1) have r: "1 \<le> count s" "0 \<le> sum_ft2 s" by simp_all
  have new: "stats (new_TrieNode exact_ops [''receptor'']) = Some ?s0"
    by (simp add: new_TrieNode_def exact_ops_def)
  from th new have r0: "lh_relation [''receptor''] ?s0" by auto
  with th have r1: "lh_relation [''receptor''] (increment_count exact_ops ?s0)" by simp
  have u: "update_likelihood exact_ops ?s0 2 = Inr ?s1"
    by (simp add: update_likelihood_def exact_ops_def)
  with th r0 have r2: "lh_relation [''receptor''] ?s1" by simp
  from m n s r r1 r2 show ?thesis by blast
qed

text \<open>
  In IEEE doubles the relation fails. After three insertions of the tokens \<open>a b c\<close> the
  node of \<open>b c\<close> has count 3, \<open>sum_ft = 2\<close>, \<open>sum_ft2 = 8\<close> and
  \<open>LH = 1.8294415416798362\<close>, whereas \<open>3 * log(2) - 2/8\<close> is \<open>1.8294415416798357\<close>,
  both when it is evaluated in doubles and when it is evaluated exactly from the double
  \<open>log(2)\<close>.
\<close>

theorem C1_rounding_counterexample:
  "(case add_all (double_ops log_table) (\<lambda>x. x)
            (ContinuousMiner_init (double_ops log_table) ''X'' None)
            (replicate 3 (Some [''a'', ''b'', ''c''])) of
      Inl e \<Rightarrow> None
    | Inr m \<Rightarrow> stats_at (internal_trie m) [''c'', ''b''])
   = Some (3, 2, 8, 1029884030675677 / 2 ^ 49)
   \<and> double_round (double_round (3 * log_table 2) - double_round (2 / 8))
      = 4119536122702707 / 2 ^ 51
   \<and> 3 * log_table 2 - 2 / 8 = 16478144490810829 / 2 ^ 53
   \<and> (1029884030675677 / 2 ^ 49 :: rat) \<noteq> 4119536122702707 / 2 ^ 51
   \<and> (1029884030675677 / 2 ^ 49 :: rat) \<noteq> 16478144490810829 / 2 ^ 53"
  by code_simp

text \<open>
  \<^bold>\<open>C9.\<close> \<open>update_likelihood\<close>, called with a count of at least 1 on a node whose
  \<open>sum_ft2\<close> is not negative, does not divide by zero: a zero \<open>sum_ft2\<close> leaves \<open>LH\<close>
  as it is in the first adjustment, and the new \<open>sum_ft2\<close>, the old one plus
  \<open>2*count - 1\<close>, is positive when the final quotient is taken.
\<close>

theorem C9_update_likelihood_no_zero_division:
  "1 \<le> c \<and> 0 \<le> sum_ft2 s \<longrightarrow>
   (\<exists>s'. update_likelihood ops s c = Inr s'
      \<and> sum_ft2 s' = sum_ft2 s + (2 * c - 1) \<and> 0 < sum_ft2 s'
      \<and> sum_ft s' = sum_ft s + 1
      \<and> LH s' = fsub ops
                   (if sum_ft2 s = 0 then LH s
                    else fadd ops (LH s) (fdiv ops (sum_ft s) (sum_ft2 s)))
                   (fdiv ops (sum_ft s') (sum_ft2 s')))"
  by (auto simp: update_likelihood_def Let_def)

theorem C9_update_likelihood_no_zero_division_witness:
  "\<exists>s'. update_likelihood exact_ops
          \<lparr>count = 1, sum_ft = 0, sum_ft2 = 0, LH = 0, length_penalty = 0\<rparr> 2 = Inr s'
      \<and> sum_ft2 s' = 3 \<and> sum_ft s' = 1 \<and> LH s' = - (1 / 3)"
  using C9_update_likelihood_no_zero_division
          [where c = 2 and ops = exact_ops
             and s = "\<lparr>count = 1, sum_ft = 0, sum_ft2 = 0, LH = 0, length_penalty = 0\<rparr>"]
  by (auto simp: exact_ops_def)

section \<open>Inserting the same candidate repeatedly\<close>

lemma path_stats_leaf_ints:
  "count (path_stats ops d True j) = int j + 1 \<and> 0 \<le> sum_ft2 (path_stats ops d True j)"
  by (induction j) (simp_all add: Let_def increment_count_def)

lemma path_stats_inner_ints:
  "count (path_stats ops d False j) = int j + 1 \<and> 0 \<le> sum_ft2 (path_stats ops d False j)"
  by (induction j)
     (auto simp: Let_def increment_count_def update_likelihood_def split: sum.splits if_splits)

lemma path_stats_count: "count (path_stats ops d leaf j) = int j + 1"
  using path_stats_leaf_ints[of ops d j] path_stats_inner_ints[of ops d j] by (cases leaf) simp_all

lemma path_stats_sum_ft2: "0 \<le> sum_ft2 (path_stats ops d leaf j)"
  using path_stats_leaf_ints[of ops d j] path_stats_inner_ints[of ops d j] by (cases leaf) simp_all

lemma increment_leaf:
  "increment_count ops (path_stats ops d True j) = path_stats ops d True (Suc j)"
  by (simp add: Let_def)

lemma update_inner:
  "update_likelihood ops (increment_count ops (path_stats ops d False j)) (int j + 2)
   = Inr (path_stats ops d False (Suc j))"
proof -
  let ?s = "increment_count ops (path_stats ops d False j)"
  have "0 \<le> sum_ft2 ?s" using path_stats_sum_ft2[of ops d False j] by (simp add: increment_count_def)
  from update_defined[OF this, of "int j + 2" ops] obtain s' where
    s': "update_likelihood ops ?s (int j + 2) = Inr s'" by auto
  then show ?thesis by (simp add: Let_def)
qed

lemma add_loop_fresh_path:
  "\<exists>lfs'. add_loop ops (TrieNode pre st []) lfs rest
           = Inr (TrieNode pre st (chain ops 0 pre rest), lfs')"
proof (induction rest arbitrary: pre st lfs)
  case Nil
  show ?case by simp
next
  case (Cons t rest)
  let ?ns = "path_stats ops (Suc (length pre)) (rest = []) 0"
  have new: "new_TrieNode ops (pre @ [t]) = TrieNode (pre @ [t]) (Some ?ns) []"
    by (simp add: new_TrieNode_def)
  define lfs0 where "lfs0 = lfs(rev (pre @ [t]) \<mapsto> LH ?ns)"
  from Cons.IH[of "pre @ [t]" "Some ?ns" lfs0] obtain lfs' where
    r: "add_loop ops (TrieNode (pre @ [t]) (Some ?ns) []) lfs0 rest
         = Inr (TrieNode (pre @ [t]) (Some ?ns) (chain ops 0 (pre @ [t]) rest), lfs')" by auto
  have "add_loop ops (TrieNode pre st []) lfs (t # rest)
      = Inr (TrieNode pre st (chain ops 0 pre (t # rest)), lfs')"
    using r unfolding lfs0_def by (simp add: new Let_def set_child_def del: path_stats.simps)
  then show ?case by (rule exI[where x = lfs'])
qed

lemma add_loop_again:
  assumes "pre \<noteq> []"
  shows "\<exists>lfs'. add_loop ops
             (TrieNode pre (Some (increment_count ops (path_stats ops (length pre) (rest = []) j)))
                (chain ops j pre rest)) lfs rest
          = Inr (TrieNode pre (Some (path_stats ops (length pre) (rest = []) (Suc j)))
                   (chain ops (Suc j) pre rest), lfs')"
  using assms
proof (induction rest arbitrary: pre lfs)
  case Nil
  show ?case using increment_leaf[of ops "length pre" j] by (simp del: path_stats.simps)
next
  case (Cons t rest)
  let ?cs = "path_stats ops (Suc (length pre)) (rest = []) j"
  let ?child' = "TrieNode (pre @ [t]) (Some (increment_count ops ?cs)) (chain ops j (pre @ [t]) rest)"
  let ?ps = "increment_count ops (path_stats ops (length pre) False j)"
  let ?ps' = "path_stats ops (length pre) False (Suc j)"
  let ?cur = "TrieNode pre (Some ?ps) (chain ops j pre (t # rest))"
  define lfs2 where "lfs2 = lfs(rev (pre @ [t]) \<mapsto> LH (increment_count ops ?cs), rev pre \<mapsto> LH ?ps')"
  have cnt: "count (increment_count ops ?cs) = int j + 2"
    by (simp add: increment_count_def path_stats_count)
  have "pre @ [t] \<noteq> []" by simp
  from Cons.IH[OF this, of lfs2] obtain lfs' where
    r: "add_loop ops ?child' lfs2 rest
        = Inr (TrieNode (pre @ [t]) (Some (path_stats ops (Suc (length pre)) (rest = []) (Suc j)))
                 (chain ops (Suc j) (pre @ [t]) rest), lfs')" by auto
  have "add_loop ops ?cur lfs (t # rest)
        = Inr (TrieNode pre (Some ?ps') (chain ops (Suc j) pre (t # rest)), lfs')"
    using r Cons.prems unfolding lfs2_def
    by (simp add: Let_def cnt update_inner set_child_def del: path_stats.simps)
  then show ?case by (simp del: add_loop.simps chain.simps path_stats.simps)
qed

lemma add_loop_again_root:
  "\<exists>lfs'. add_loop ops (TrieNode [] None (chain ops j [] p)) lfs p
          = Inr (TrieNode [] None (chain ops (Suc j) [] p), lfs')"
proof (cases p)
  case Nil
  then show ?thesis by simp
next
  case (Cons t rest)
  let ?cs = "path_stats ops (Suc 0) (rest = []) j"
  let ?child' = "TrieNode [t] (Some (increment_count ops ?cs)) (chain ops j [t] rest)"
  define lfs1 where "lfs1 = lfs(rev [t] \<mapsto> LH (increment_count ops ?cs))"
  from add_loop_again[of "[t]" ops rest j lfs1] obtain lfs' where
    r: "add_loop ops ?child' lfs1 rest
        = Inr (TrieNode [t] (Some (path_stats ops (Suc 0) (rest = []) (Suc j)))
                 (chain ops (Suc j) [t] rest), lfs')"
    by auto
  have "add_loop ops (TrieNode [] None (chain ops j [] p)) lfs p
        = Inr (TrieNode [] None (chain ops (Suc j) [] p), lfs')"
    using r unfolding lfs1_def Cons by (simp add: Let_def set_child_def del: path_stats.simps)
  then show ?thesis by (rule exI[where x = lfs'])
qed

lemma add_repeat_chain:
  "\<exists>m. add_all ops stem (ContinuousMiner_init ops sf ex) (replicate (Suc j) (Some t)) = Inr m
       \<and> internal_trie m = TrieNode [] None (chain ops j [] (rev (map stem t)))"
proof -
  let ?p = "rev (map stem t)"
  have step: "\<exists>m'. miner_add ops stem m (Some t) = Inr m'
                \<and> internal_trie m' = TrieNode [] None (chain ops (Suc i) [] ?p)"
    if "internal_trie m = TrieNode [] None (chain ops i [] ?p)" for m i
  proof -
    from add_loop_again_root[of ops i ?p "longforms m"] obtain lfs' where
      "add_loop ops (TrieNode [] None (chain ops i [] ?p)) (longforms m) ?p
        = Inr (TrieNode [] None (chain ops (Suc i) [] ?p), lfs')" by auto
    then show ?thesis using that by (simp add: miner_add_def)
  qed
  have first: "\<exists>m'. miner_add ops stem (ContinuousMiner_init ops sf ex) (Some t) = Inr m'
                \<and> internal_trie m' = TrieNode [] None (chain ops 0 [] ?p)"
  proof -
    from add_loop_fresh_path[of ops "[]" None Map.empty ?p] obtain lfs' where
      "add_loop ops (TrieNode [] None []) Map.empty ?p
        = Inr (TrieNode [] None (chain ops 0 [] ?p), lfs')" by auto
    then show ?thesis by (simp add: miner_add_def ContinuousMiner_init_def new_TrieNode_def)
  qed
  have gen: "\<exists>m'. add_all ops stem m (replicate j (Some t)) = Inr m'
                \<and> internal_trie m' = TrieNode [] None (chain ops (i + j) [] ?p)"
    if "internal_trie m = TrieNode [] None (chain ops i [] ?p)" for m i j
    using that
  proof (induction j arbitrary: m i)
    case 0
    then show ?case by simp
  next
    case (Suc j)
    from step[OF Suc.prems] obtain m1 where
      m1: "miner_add ops stem m (Some t) = Inr m1"
          "internal_trie m1 = TrieNode [] None (chain ops (Suc i) [] ?p)" by auto
    from Suc.IH[OF m1(2)] obtain m' where
      "add_all ops stem m1 (replicate j (Some t)) = Inr m'"
      "internal_trie m' = TrieNode [] None (chain ops (Suc i + j) [] ?p)" by auto
    then show ?case using m1(1) by auto
  qed
  from first obtain m1 where
    m1: "miner_add ops stem (ContinuousMiner_init ops sf ex) (Some t) = Inr m1"
        "internal_trie m1 = TrieNode [] None (chain ops 0 [] ?p)" by auto
  from gen[OF m1(2), of j] obtain m' where
    "add_all ops stem m1 (replicate j (Some t)) = Inr m'"
    "internal_trie m' = TrieNode [] None (chain ops j [] ?p)" by auto
  then show ?thesis using m1(1) by auto
qed

lemma shape_chain:
  "map (map_prod id shape) (chain ops j pre rest) = map (map_prod id shape) (chain ops 0 pre rest)"
  by (induction rest arbitrary: pre) (simp_all del: path_stats.simps)

lemma node_at_chain:
  "0 < d \<Longrightarrow> d \<le> length rest \<Longrightarrow>
   node_at (TrieNode pre st (chain ops j pre rest)) (take d rest)
   = Some (TrieNode (pre @ take d rest)
             (Some (path_stats ops (length pre + d) (d = length rest) j))
             (chain ops j (pre @ take d rest) (drop d rest)))"
proof (induction rest arbitrary: pre st d)
  case Nil
  then show ?case by simp
next
  case (Cons t rest)
  show ?case
  proof (cases "d = 1")
    case True
    then show ?thesis by (simp del: path_stats.simps)
  next
    case False
    with Cons.prems obtain d' where d': "d = Suc d'" "0 < d'" "d' \<le> length rest"
      by (cases d) auto
    from Cons.IH[OF d'(2,3), of "pre @ [t]" "Some (path_stats ops (Suc (length pre)) (rest = []) j)"]
    show ?thesis using d' by (simp del: path_stats.simps)
  qed
qed

lemma leaf_stats:
  "sum_ft (path_stats ops d True j) = 0 \<and> sum_ft2 (path_stats ops d True j) = 0
   \<and> length_penalty (path_stats ops d True j) = flog ops d
   \<and> LH (path_stats ops d True j) = ((\<lambda>x. fadd ops x (flog ops d)) ^^ j) (flog ops d)"
  by (induction j) (simp_all add: Let_def increment_count_def)

lemma leaf_stats_exact:
  "LH (path_stats exact_ops d True j) = real (Suc j) * ln (real d)"
proof -
  have "((\<lambda>x. fadd exact_ops x (flog exact_ops d)) ^^ j) (flog exact_ops d) = real (Suc j) * ln (real d)"
    by (induction j) (simp_all add: exact_ops_def algebra_simps)
  then show ?thesis using leaf_stats[of exact_ops d j] by simp
qed

text \<open>
  \<^bold>\<open>C8.\<close> Calling \<open>_add(t)\<close> \<open>k\<close> times on a fresh miner, for a non-empty \<open>t\<close> and
  \<open>k \<ge> 1\<close>, builds a trie of the same shape as calling it once. Every node on the path,
  that is the node of every non-empty suffix of \<open>t\<close>, has \<open>count = k\<close>. The node of the
  full sequence keeps \<open>sum_ft = sum_ft2 = 0\<close>, and its \<open>LH\<close> is \<open>log(len(t))\<close> to which
  the length penalty \<open>log(len(t))\<close> has been added \<open>k - 1\<close> times in float arithmetic; in
  exact arithmetic that is \<open>k * log(len(t))\<close>.
\<close>

theorem C8_repeated_add:
  "(t \<noteq> [] \<and> 1 \<le> k \<and> 0 < d \<and> d \<le> length t \<longrightarrow>
     (\<exists>m1 mk n s.
        add_all ops stem (ContinuousMiner_init ops sf ex) [Some t] = Inr m1
      \<and> add_all ops stem (ContinuousMiner_init ops sf ex) (replicate k (Some t)) = Inr mk
      \<and> shape (internal_trie mk) = shape (internal_trie m1)
      \<and> node_at (internal_trie mk) (take d (rev (map stem t))) = Some n
      \<and> stats n = Some s \<and> count s = int k
      \<and> (d = length t \<longrightarrow>
            sum_ft s = 0 \<and> sum_ft2 s = 0
            \<and> LH s = ((\<lambda>x. fadd ops x (flog ops (length t))) ^^ (k - 1)) (flog ops (length t)))))
   \<and> (t \<noteq> [] \<and> 1 \<le> k \<longrightarrow>
     (\<exists>mk n s.
        add_all exact_ops stem (ContinuousMiner_init exact_ops sf ex) (replicate k (Some t)) = Inr mk
      \<and> node_at (internal_trie mk) (rev (map stem t)) = Some n
      \<and> stats n = Some s \<and> LH s = real k * ln (real (length t))))"
  (is "(?hyp \<longrightarrow> ?concl) \<and> (?hyp2 \<longrightarrow> ?concl2)")
proof (intro conjI impI)
  assume h: ?hyp
  then obtain j where k: "k = Suc j" by (cases k) auto
  let ?p = "rev (map stem t)"
  from add_repeat_chain[of ops stem sf ex 0 t] obtain m1 where
    m1: "add_all ops stem (ContinuousMiner_init ops sf ex) [Some t] = Inr m1"
        "internal_trie m1 = TrieNode [] None (chain ops 0 [] ?p)" by auto
  from add_repeat_chain[of ops stem sf ex j t] obtain mk where
    mk: "add_all ops stem (ContinuousMiner_init ops sf ex) (replicate k (Some t)) = Inr mk"
        "internal_trie mk = TrieNode [] None (chain ops j [] ?p)" unfolding k by auto
  have sh: "shape (internal_trie mk) = shape (internal_trie m1)"
    by (simp add: m1(2) mk(2) shape_chain[of ops j])
  let ?s = "path_stats ops d (d = length t) j"
  let ?n = "TrieNode (take d ?p) (Some ?s) (chain ops j (take d ?p) (drop d ?p))"
  from h have "0 < d" "d \<le> length ?p" by simp_all
  from node_at_chain[OF this, of "[]" None ops j]
  have nd: "node_at (internal_trie mk) (take d ?p) = Some ?n"
    by (simp add: mk(2) del: path_stats.simps)
  have c: "count ?s = int k" by (simp add: path_stats_count k del: path_stats.simps)
  have l: "d = length t \<longrightarrow>
            sum_ft ?s = 0 \<and> sum_ft2 ?s = 0
            \<and> LH ?s = ((\<lambda>x. fadd ops x (flog ops (length t))) ^^ (k - 1)) (flog ops (length t))"
    using leaf_stats[of ops "length t" j] by (simp add: k del: path_stats.simps)
  show ?concl
    using m1(1) mk(1) sh nd c l
    by (intro exI[where x = m1] exI[where x = mk] exI[where x = ?n] exI[where x = ?s])
       (simp del: path_stats.simps)
next
  assume h: ?hyp2
  then obtain j where k: "k = Suc j" by (cases k) auto
  let ?p = "rev (map stem t)"
  from add_repeat_chain[of exact_ops stem sf ex j t] obtain mk where
    mk: "add_all exact_ops stem (ContinuousMiner_init exact_ops sf ex) (replicate k (Some t)) = Inr mk"
        "internal_trie mk = TrieNode [] None (chain exact_ops j [] ?p)" unfolding k by auto
  let ?s = "path_stats exact_ops (length t) True j"
  let ?n = "TrieNode ?p (Some ?s) (chain exact_ops j ?p [])"
  from h have "0 < length ?p" "length ?p \<le> length ?p" by simp_all
  from node_at_chain[OF this, of "[]" None exact_ops j]
  have nd: "node_at (internal_trie mk) ?p = Some ?n"
    by (simp add: mk(2) del: path_stats.simps)
  have "LH ?s = real k * ln (real (length t))" unfolding k by (rule leaf_stats_exact)
  then show ?concl2
    using mk(1) nd
    by (intro exI[where x = mk] exI[where x = ?n] exI[where x = ?s]) (simp del: path_stats.simps)
qed

theorem C8_repeated_add_witness:
  "(\<exists>m. add_all exact_ops (\<lambda>x. x) (ContinuousMiner_init exact_ops ''ER'' None)
          (replicate 2 (Some [''estrogen'', ''receptor''])) = Inr m
      \<and> count_at (internal_trie m) [''receptor'', ''estrogen''] = Some 2
      \<and> count_at (internal_trie m) [''receptor''] = Some 2
      \<and> stats_at (internal_trie m) [''receptor'', ''estrogen''] = Some (2, 0, 0, ln 2 + ln 2))
   \<and> (\<exists>m n s. add_all exact_ops (\<lambda>x. x) (ContinuousMiner_init exact_ops ''ER'' None)
          (replicate 2 (Some [''estrogen'', ''receptor''])) = Inr m
      \<and> node_at (internal_trie m) [''receptor'', ''estrogen''] = Some n
      \<and> stats n = Some s \<and> LH s = 2 * ln 2)"
  using C8_repeated_add[where t = "[''estrogen'', ''receptor'']" and k = 2 and d = 2
          and stem = "\<lambda>x. x" and sf = "''ER''" and ex = None and ops = exact_ops]
        C8_repeated_add[where t = "[''estrogen'', ''receptor'']" and k = 2 and d = 1
          and stem = "\<lambda>x. x" and sf = "''ER''" and ex = None and ops = exact_ops]
  by (auto simp: count_at_def stats_at_def exact_ops_def numeral_2_eq_2)

text \<open>
  With the tokens \<open>a b c\<close>, the count of the node of \<open>b c\<close>, which is not the node of
  the full sequence, goes from 1 to 2 with the second insertion. After six insertions in
  IEEE doubles the node of the full sequence has \<open>LH = 6.591673732008659\<close>, whereas
  \<open>6 * log(3)\<close> is \<open>6.591673732008658\<close>.
\<close>

theorem C8_count_counterexample:
  "(case add_all (double_ops log_table) (\<lambda>x. x)
            (ContinuousMiner_init (double_ops log_table) ''X'' None)
            [Some [''a'', ''b'', ''c'']] of
      Inl e \<Rightarrow> None | Inr m \<Rightarrow> count_at (internal_trie m) [''c'', ''b'']) = Some 1
   \<and> (case add_all (double_ops log_table) (\<lambda>x. x)
            (ContinuousMiner_init (double_ops log_table) ''X'' None)
            [Some [''a'', ''b'', ''c''], Some [''a'', ''b'', ''c'']] of
      Inl e \<Rightarrow> None | Inr m \<Rightarrow> count_at (internal_trie m) [''c'', ''b'']) = Some 2
   \<and> (case add_all (double_ops log_table) (\<lambda>x. x)
            (ContinuousMiner_init (double_ops log_table) ''X'' None)
            (replicate 6 (Some [''a'', ''b'', ''c''])) of
      Inl e \<Rightarrow> None | Inr m \<Rightarrow> stats_at (internal_trie m) [''c'', ''b'', ''a''])
     = Some (6, 0, 0, 7421564840805521 / 2 ^ 50)
   \<and> double_round (6 * log_table 3) = 463847802550345 / 2 ^ 46
   \<and> 6 * log_table 3 = 14843129681611041 / 2 ^ 51
   \<and> (7421564840805521 / 2 ^ 50 :: rat) \<noteq> 463847802550345 / 2 ^ 46
   \<and> (7421564840805521 / 2 ^ 50 :: rat) \<noteq> 14843129681611041 / 2 ^ 51"
  by code_simp

section \<open>Candidate extraction\<close>

text \<open>
  \<^bold>\<open>C2.\<close> \<open>_get_candidates\<close> should find the first index at which the tokens are
  \<open>(\<close>, the shortform, \<open>)\<close>. The loop stops one index short: for the five tokens
  \<open>estrogen receptor ( ER )\<close> the pattern stands at index 2, the loop runs over
  \<open>range(2)\<close>, and the function returns \<open>None\<close>. With one more token after the closing
  parenthesis the candidate is found.
\<close>

theorem C2_pattern_at_end_not_found:
  "get_candidates greek (ContinuousMiner_init ops ''ER'' None)
     [''estrogen'', ''receptor'', ''('', ''ER'', '')''] = None
   \<and> pattern_at ''ER'' [''estrogen'', ''receptor'', ''('', ''ER'', '')''] 2
   \<and> get_candidates Map.empty (ContinuousMiner_init ops ''ER'' None)
     [''estrogen'', ''receptor'', ''('', ''ER'', '')'', ''.''] = Some [''estrogen'', ''receptor'']"
  by (simp add: get_candidates_def ContinuousMiner_init_def pattern_at_def upt_rec
        punctuation_def lower_def lower_char_def Let_def)

text \<open>
  What the function returns when the first occurrence of the pattern is at an index
  that the loop reaches: the tokens before it, filtered, transliterated and lower-cased,
  from after the last excluded token on.
\<close>

lemma find_upt_first:
  assumes "i < n" "P i" "\<forall>j<i. \<not> P j"
  shows "find P [0 ..< n] = Some i"
proof -
  have "\<exists>k<length [0 ..< n]. P ([0 ..< n] ! k) \<and> i = [0 ..< n] ! k \<and> (\<forall>j<k. \<not> P ([0 ..< n] ! j))"
    using assms by (intro exI[where x = i]) simp
  then show ?thesis by (simp only: find_Some_iff)
qed

lemma scan_back_takeWhile:
  "n \<le> length c \<Longrightarrow>
   scan_back ex c n = n - length (takeWhile (\<lambda>t. t \<notin> ex) (rev (take n c)))"
proof (induction n)
  case 0
  show ?case by simp
next
  case (Suc n)
  then have n: "n < length c" by simp
  then have t: "take (Suc n) c = take n c @ [c ! n]" by (simp add: take_Suc_conv_app_nth)
  show ?case
  proof (cases "c ! n \<in> ex")
    case True
    then show ?thesis by (simp add: t)
  next
    case False
    have "length (takeWhile (\<lambda>t. t \<notin> ex) (rev (take n c))) \<le> n"
      using length_takeWhile_le[of "\<lambda>t. t \<notin> ex" "rev (take n c)"] n by simp
    then show ?thesis using False Suc.IH n by (simp add: t)
  qed
qed

lemma drop_scan_back:
  "drop (scan_back ex c (length c)) c = rev (takeWhile (\<lambda>t. t \<notin> ex) (rev c))"
proof -
  let ?k = "length (takeWhile (\<lambda>t. t \<notin> ex) (rev c))"
  have k: "?k \<le> length c" using length_takeWhile_le[of "\<lambda>t. t \<notin> ex" "rev c"] by simp
  have "scan_back ex c (length c) = length c - ?k" using scan_back_takeWhile[of "length c" c ex] by simp
  then have "drop (scan_back ex c (length c)) c = drop (length c - ?k) c" by simp
  also have "\<dots> = rev (take ?k (rev c))" by (simp add: rev_take)
  also have "take ?k (rev c) = takeWhile (\<lambda>t. t \<notin> ex) (rev c)"
    by (rule takeWhile_eq_take[symmetric])
  finally show ?thesis .
qed

lemma get_candidates_found:
  assumes "i + 3 < length tokens" "pattern_at (m_shortform m) tokens i"
    and "\<forall>j<i. \<not> pattern_at (m_shortform m) tokens j"
  shows "get_candidates greek m tokens =
     Some (rev (takeWhile (\<lambda>t. t \<notin> m_exclude m)
       (rev (map lower (map (\<lambda>token. case greek token of None \<Rightarrow> token | Some r \<Rightarrow> r)
          (filter (\<lambda>token. \<not> str_in token punctuation) (take i tokens)))))))"
proof -
  from assms(1) have "i < length tokens - 3" by simp
  from find_upt_first[OF this assms(2,3)]
  have "find (pattern_at (m_shortform m) tokens) [0 ..< length tokens - 3] = Some i" .
  then show ?thesis
    by (simp add: get_candidates_def Let_def drop_scan_back del: map_map)
qed

lemma get_candidates_None:
  "get_candidates greek m tokens = None \<longleftrightarrow>
     (\<forall>i. i + 3 < length tokens \<longrightarrow> \<not> pattern_at (m_shortform m) tokens i)"
proof -
  have "find (pattern_at (m_shortform m) tokens) [0 ..< length tokens - 3] = None \<longleftrightarrow>
        (\<forall>i. i + 3 < length tokens \<longrightarrow> \<not> pattern_at (m_shortform m) tokens i)"
    by (auto simp: find_None_iff)
  then show ?thesis
    by (auto simp: get_candidates_def Let_def split: option.splits)
qed

text \<open>
  \<^bold>\<open>C7.\<close> For a token list in which no index holds the pattern \<open>(\<close>, shortform,
  \<open>)\<close>, \<open>_get_candidates\<close> returns \<open>None\<close>, not an empty list, and \<open>_add\<close> applied to that
  result raises \<open>TypeError\<close>. \<open>_add\<close> applied to an empty candidate list raises nothing
  and leaves the trie and the table of longforms as they were.
\<close>

theorem C7_no_pattern:
  "(\<forall>i. i + 2 < length tokens \<longrightarrow> \<not> pattern_at (m_shortform m) tokens i) \<longrightarrow>
     get_candidates greek m tokens = None
     \<and> miner_add ops stem m (get_candidates greek m tokens) = Inl TypeError
     \<and> miner_add ops stem m (Some []) = Inr m"
proof
  assume h: "\<forall>i. i + 2 < length tokens \<longrightarrow> \<not> pattern_at (m_shortform m) tokens i"
  have "\<forall>i. i + 3 < length tokens \<longrightarrow> \<not> pattern_at (m_shortform m) tokens i"
  proof (intro allI impI)
    fix i assume "i + 3 < length tokens"
    then have "i + 2 < length tokens" by simp
    with h show "\<not> pattern_at (m_shortform m) tokens i" by blast
  qed
  then have n: "get_candidates greek m tokens = None" by (simp add: get_candidates_None)
  have "miner_add ops stem m None = Inl TypeError" by (simp add: miner_add_def)
  moreover have "miner_add ops stem m (Some []) = Inr m" by (simp add: miner_add_def)
  ultimately show "get_candidates greek m tokens = None
     \<and> miner_add ops stem m (get_candidates greek m tokens) = Inl TypeError
     \<and> miner_add ops stem m (Some []) = Inr m" using n by simp
qed

theorem C7_no_pattern_witness:
  "get_candidates Map.empty (ContinuousMiner_init exact_ops ''ER'' None) [''the'', ''receptor''] = None
   \<and> miner_add exact_ops (\<lambda>x. x) (ContinuousMiner_init exact_ops ''ER'' None)
        (get_candidates Map.empty (ContinuousMiner_init exact_ops ''ER'' None) [''the'', ''receptor''])
      = Inl TypeError
   \<and> miner_add exact_ops (\<lambda>x. x) (ContinuousMiner_init exact_ops ''ER'' None) (Some [])
      = Inr (ContinuousMiner_init exact_ops ''ER'' None)"
  using C7_no_pattern[where tokens = "[''the'', ''receptor'']"
          and m = "ContinuousMiner_init exact_ops ''ER'' None" and greek = Map.empty
          and stem = "\<lambda>x. x" and ops = exact_ops]
  by (simp add: miner_add_def)

text \<open>Two tokens without the pattern: the result is not the empty list, and \<open>_add\<close> raises.\<close>

theorem C7_no_pattern_counterexample:
  "get_candidates Map.empty (ContinuousMiner_init exact_ops ''ER'' None) [''the'', ''receptor''] \<noteq> Some []
   \<and> miner_add exact_ops (\<lambda>x. x) (ContinuousMiner_init exact_ops ''ER'' None)
        (get_candidates Map.empty (ContinuousMiner_init exact_ops ''ER'' None) [''the'', ''receptor''])
      = Inl TypeError"
  by (simp add: get_candidates_def miner_add_def)

section \<open>Stripping defining patterns when no longform is recognized\<close>

lemma strip_loop_no_longform:
  "(\<forall>f \<in> set fs. srch (filter (\<lambda>token. \<not> str_in token punctuation) (map fst (tokenize f))) = Inr None)
   \<Longrightarrow> strip_loop srch tokenize untokenize word_start text fs = Inr text"
  by (induction fs) (simp_all add: Let_def)

text \<open>
  \<^bold>\<open>C10.\<close> When \<open>_search\<close> finds no longform, \<open>strip_defining_patterns\<close> should
  replace every parenthesized shortform by the shortform and change nothing else but the
  whitespace, as its docstring shows with \<open>(DP)s.\<close> becoming \<open>DPs.\<close>. The substitution
  puts a space on either side of the shortform: for the text \<open>by finding (DP)s.\<close> the
  code returns \<open>by finding DP s.\<close>, where replacing the parenthesized shortform by the
  shortform alone gives \<open>by finding DPs.\<close>. The fragments, the tokenizer and the other
  helpers are arbitrary.
\<close>

theorem C10_space_after_shortform:
  "strip_defining_patterns (\<lambda>tokens. Inr None) frags tokenize untokenize word_start
     \<lparr>shortform = ''DP'', window = 100, exclude = {}\<rparr> ''by finding (DP)s.''
   = Inr ''by finding DP s.''
   \<and> strip_as_specified ''DP'' ''by finding (DP)s.'' = ''by finding DPs.''"
proof -
  have "strip_loop (\<lambda>tokens. Inr None) tokenize untokenize word_start ''by finding (DP)s.''
          (frags ''by finding (DP)s.'' ''DP'' None) = Inr ''by finding (DP)s.''"
    by (rule strip_loop_no_longform) simp
  then show ?thesis
    by (simp add: strip_defining_patterns_def strip_as_specified_def re_sub_def match_dp_def
          is_space_def Let_def split_ws_def)
qed

end
